theory Spec2Isabelle
  imports
    Complex_Main
    "HOL-Library.Multiset"
    "HOL-Library.Char_ord"
    "HOL-Library.List_Lexorder"
    "HOL-Library.Product_Lexorder"
begin

section \<open>Data model of \<^verbatim>\<open>producer_consumer.py\<close>\<close>

text \<open>
  \<^verbatim>\<open>class Priority(IntEnum)\<close>: four members, in declaration order, with the integer
  values 1 to 4 (lower value = higher priority).
\<close>

datatype Priority = CRITICAL | HIGH | MEDIUM | LOW

text \<open>\<^verbatim>\<open>list(Priority)\<close>: the members in declaration order.\<close>

definition all_Priority :: "Priority list" where
  "all_Priority = [CRITICAL, HIGH, MEDIUM, LOW]"

text \<open>\<^verbatim>\<open>p.value\<close>\<close>

fun Priority_value :: "Priority \<Rightarrow> int" where
  "Priority_value CRITICAL = 1"
| "Priority_value HIGH = 2"
| "Priority_value MEDIUM = 3"
| "Priority_value LOW = 4"

text \<open>\<^verbatim>\<open>p.name\<close>\<close>

fun Priority_name :: "Priority \<Rightarrow> string" where
  "Priority_name CRITICAL = ''CRITICAL''"
| "Priority_name HIGH = ''HIGH''"
| "Priority_name MEDIUM = ''MEDIUM''"
| "Priority_name LOW = ''LOW''"

text \<open>
  Exceptions of the Python runtime that the modelled code can raise, and the three ways
  a call can end: it waits forever (\<open>Blocked\<close>: a semaphore or queue wait that nothing
  in a sequential run can release), it raises, or it returns.
\<close>

datatype error = IndexError | KeyError | ValueError

datatype 'a result = Blocked | Raised error | Done 'a

text \<open>
  \<^verbatim>\<open>Priority[name]\<close>: lookup of a member by name; a name that is no member raises
  \<^verbatim>\<open>KeyError\<close>.
\<close>

definition Priority_getitem :: "string \<Rightarrow> Priority result" where
  "Priority_getitem n =
     (case filter (\<lambda>p. Priority_name p = n) all_Priority of
        [] \<Rightarrow> Raised KeyError
      | p # _ \<Rightarrow> Done p)"

text \<open>
  \<^verbatim>\<open>Priority(v)\<close>: lookup of a member by value; a value that is no member's raises
  \<^verbatim>\<open>ValueError\<close>.
\<close>

definition Priority_call :: "int \<Rightarrow> Priority result" where
  "Priority_call v =
     (case filter (\<lambda>p. Priority_value p = v) all_Priority of
        [] \<Rightarrow> Raised ValueError
      | p # _ \<Rightarrow> Done p)"

text \<open>
  \<^verbatim>\<open>v in Priority\<close> for an integer \<open>v\<close>, as Python 3.12 and later evaluate it: true
  exactly when \<open>v\<close> is the value of a member. (The producers pass \<^verbatim>\<open>priority.value\<close>,
  a plain integer; interpreters from 3.8 to 3.11 raise \<^verbatim>\<open>TypeError\<close> on this test for
  every integer, so the program only runs on the later semantics, which is the one
  modelled.)
\<close>

definition in_Priority :: "int \<Rightarrow> bool" where
  "in_Priority v \<longleftrightarrow> v \<in> set (map Priority_value all_Priority)"

text \<open>
  \<^verbatim>\<open>@dataclass(order=True) class PriorityItem\<close>. The field \<open>priority\<close> is declared
  \<^verbatim>\<open>int\<close>, not \<^verbatim>\<open>Priority\<close>. The payload is a \<^verbatim>\<open>str\<close>, modelled by its UTF-8 bytes
  (byte-wise lexicographic order on UTF-8 is code-point order, which is how Python
  compares strings). The timestamp is the float returned by \<^verbatim>\<open>time.time()\<close>, a finite
  binary fraction, modelled as a rational; only its order is used.
\<close>

record PriorityItem =
  priority :: int
  item_id :: int
  data :: string
  timestamp :: rat

text \<open>
  The constructor with \<^verbatim>\<open>__post_init__\<close>: a missing timestamp is replaced by the
  current time \<open>now\<close> (the value \<^verbatim>\<open>time.time()\<close> returns at the call).
\<close>

definition PriorityItem_new :: "rat \<Rightarrow> int \<Rightarrow> int \<Rightarrow> string \<Rightarrow> rat option \<Rightarrow> PriorityItem" where
  "PriorityItem_new now p i d ts =
     \<lparr>priority = p, item_id = i, data = d,
      timestamp = (case ts of None \<Rightarrow> now | Some t \<Rightarrow> t)\<rparr>"

text \<open>
  \<^verbatim>\<open>order=True\<close> generates \<^verbatim>\<open>__lt__\<close> as the comparison of the tuples of all fields
  in declaration order:
  \<^verbatim>\<open>(self.priority, self.item_id, self.data, self.timestamp) < (other.priority, ...)\<close>.
  Python compares tuples lexicographically.
\<close>

definition item_key :: "PriorityItem \<Rightarrow> int \<times> int \<times> string \<times> rat" where
  "item_key a = (priority a, item_id a, data a, timestamp a)"

definition item_lt :: "PriorityItem \<Rightarrow> PriorityItem \<Rightarrow> bool" where
  "item_lt a b \<longleftrightarrow> item_key a < item_key b"

section \<open>The standard library's \<^verbatim>\<open>heapq\<close> and \<^verbatim>\<open>queue.PriorityQueue\<close>\<close>

text \<open>
  \<^verbatim>\<open>queue.PriorityQueue\<close> keeps its entries in a Python list ordered as a binary heap
  by \<^verbatim>\<open>heapq.heappush\<close> and \<^verbatim>\<open>heapq.heappop\<close>, which compare entries with \<^verbatim>\<open><\<close>
  only. The functions below follow \<^verbatim>\<open>heapq.py\<close> statement by statement.

  The \<^verbatim>\<open>while\<close> loop of \<^verbatim>\<open>_siftdown(heap, startpos, pos)\<close>: parents larger than
  \<open>newitem\<close> move down; the loop returns the list and the position left for \<open>newitem\<close>.
\<close>

function siftdown_loop ::
  "PriorityItem list \<Rightarrow> nat \<Rightarrow> PriorityItem \<Rightarrow> nat \<Rightarrow> PriorityItem list \<times> nat" where
  "siftdown_loop heap startpos newitem pos =
     (if pos > startpos then
        (if item_lt newitem (heap ! ((pos - 1) div 2))
         then siftdown_loop (heap[pos := heap ! ((pos - 1) div 2)]) startpos newitem
                ((pos - 1) div 2)
         else (heap, pos))
      else (heap, pos))"
  by pat_completeness auto
termination
  by (relation "measure (\<lambda>(heap, startpos, newitem, pos). pos)") auto

definition siftdown :: "PriorityItem list \<Rightarrow> nat \<Rightarrow> nat \<Rightarrow> PriorityItem list" where
  "siftdown heap startpos pos =
     (let newitem = heap ! pos;
          (heap', pos') = siftdown_loop heap startpos newitem pos
      in heap'[pos' := newitem])"

text \<open>
  The \<^verbatim>\<open>while\<close> loop of \<^verbatim>\<open>_siftup(heap, pos)\<close>: the smaller child moves up until the
  position is a leaf.
\<close>

function siftup_loop :: "PriorityItem list \<Rightarrow> nat \<Rightarrow> nat \<Rightarrow> PriorityItem list \<times> nat" where
  "siftup_loop heap endpos pos =
     (if 2 * pos + 1 < endpos then
        (if 2 * pos + 1 + 1 < endpos \<and> \<not> item_lt (heap ! (2 * pos + 1)) (heap ! (2 * pos + 1 + 1))
         then siftup_loop (heap[pos := heap ! (2 * pos + 1 + 1)]) endpos (2 * pos + 1 + 1)
         else siftup_loop (heap[pos := heap ! (2 * pos + 1)]) endpos (2 * pos + 1))
      else (heap, pos))"
  by pat_completeness auto
termination
  by (relation "measure (\<lambda>(heap, endpos, pos). endpos - pos)") auto

definition siftup :: "PriorityItem list \<Rightarrow> nat \<Rightarrow> PriorityItem list" where
  "siftup heap pos =
     (let endpos = length heap;
          startpos = pos;
          newitem = heap ! pos;
          (heap', pos') = siftup_loop heap endpos pos
      in siftdown (heap'[pos' := newitem]) startpos pos')"

definition heappush :: "PriorityItem list \<Rightarrow> PriorityItem \<Rightarrow> PriorityItem list" where
  "heappush heap item = siftdown (heap @ [item]) 0 (length (heap @ [item]) - 1)"

text \<open>
  \<^verbatim>\<open>heappop\<close>: \<^verbatim>\<open>heap.pop()\<close> raises \<^verbatim>\<open>IndexError\<close> on the empty list; otherwise the
  last entry replaces the root, which is returned.
\<close>

definition heappop :: "PriorityItem list \<Rightarrow> (PriorityItem \<times> PriorityItem list) result" where
  "heappop heap =
     (if heap = [] then Raised IndexError
      else
        (let lastelt = last heap;
             heap1 = butlast heap
         in if heap1 \<noteq> [] then
              (let returnitem = heap1 ! 0
               in Done (returnitem, siftup (heap1[0 := lastelt]) 0))
            else Done (lastelt, heap1)))"

text \<open>
  \<^verbatim>\<open>queue.PriorityQueue(maxsize)\<close>. \<^verbatim>\<open>put\<close> waits while \<open>maxsize > 0\<close> and the queue
  holds \<open>maxsize\<close> entries or more (a \<open>maxsize\<close> of zero or less means no bound);
  \<^verbatim>\<open>get\<close> waits while the queue is empty.
\<close>

record PriorityQueue =
  maxsize :: int
  queue :: "PriorityItem list"

definition PriorityQueue_init :: "int \<Rightarrow> PriorityQueue" where
  "PriorityQueue_init m = \<lparr>maxsize = m, queue = []\<rparr>"

definition qsize :: "PriorityQueue \<Rightarrow> int" where
  "qsize q = int (length (queue q))"

definition put :: "PriorityQueue \<Rightarrow> PriorityItem \<Rightarrow> PriorityQueue result" where
  "put q item =
     (if maxsize q > 0 \<and> qsize q \<ge> maxsize q then Blocked
      else Done (q\<lparr>queue := heappush (queue q) item\<rparr>))"

definition get :: "PriorityQueue \<Rightarrow> (PriorityItem \<times> PriorityQueue) result" where
  "get q =
     (if qsize q = 0 then Blocked
      else
        (case heappop (queue q) of
           Blocked \<Rightarrow> Blocked
         | Raised e \<Rightarrow> Raised e
         | Done (item, h) \<Rightarrow> Done (item, q\<lparr>queue := h\<rparr>)))"

text \<open>
  \<^verbatim>\<open>threading.Semaphore(value)\<close>: a counter that is never negative. The constructor
  raises \<^verbatim>\<open>ValueError\<close> for a negative initial value; \<^verbatim>\<open>acquire\<close> waits while the
  counter is zero and decrements it; \<^verbatim>\<open>release\<close> increments it.
\<close>

definition Semaphore_init :: "int \<Rightarrow> nat result" where
  "Semaphore_init v = (if v < 0 then Raised ValueError else Done (nat v))"

definition acquire :: "nat \<Rightarrow> nat result" where
  "acquire v = (if v = 0 then Blocked else Done (v - 1))"

definition release :: "nat \<Rightarrow> nat" where
  "release v = v + 1"

section \<open>\<^verbatim>\<open>PriorityBuffer\<close>\<close>

text \<open>
  The dictionary \<^verbatim>\<open>items_by_priority\<close> is an association list in insertion order
  (the order \<^verbatim>\<open>get_stats\<close> iterates in). The lock \<^verbatim>\<open>mutex\<close> is taken and released
  inside each operation, so it is free between completed operations and carries no state
  in a sequential run.
\<close>

record PriorityBuffer =
  max_size :: int
  buffer :: PriorityQueue
  empty_slots :: nat
  filled_slots :: nat
  total_produced :: int
  total_consumed :: int
  items_by_priority :: "(Priority \<times> int) list"

definition PriorityBuffer_init :: "int \<Rightarrow> PriorityBuffer result" where
  "PriorityBuffer_init ms =
     (case Semaphore_init ms of
        Blocked \<Rightarrow> Blocked
      | Raised e \<Rightarrow> Raised e
      | Done es \<Rightarrow>
          (case Semaphore_init 0 of
             Blocked \<Rightarrow> Blocked
           | Raised e \<Rightarrow> Raised e
           | Done fs \<Rightarrow>
               Done \<lparr>max_size = ms,
                     buffer = PriorityQueue_init ms,
                     empty_slots = es,
                     filled_slots = fs,
                     total_produced = 0,
                     total_consumed = 0,
                     items_by_priority = map (\<lambda>p. (p, 0)) all_Priority\<rparr>))"

text \<open>\<^verbatim>\<open>d[k] += 1\<close>: a missing key raises \<^verbatim>\<open>KeyError\<close>; the key keeps its position.\<close>

definition dict_incr :: "(Priority \<times> int) list \<Rightarrow> Priority \<Rightarrow> (Priority \<times> int) list result" where
  "dict_incr d k =
     (case map_of d k of
        None \<Rightarrow> Raised KeyError
      | Some c \<Rightarrow> Done (map (\<lambda>(k', c'). if k' = k then (k', c + 1) else (k', c')) d))"

definition produce :: "PriorityBuffer \<Rightarrow> PriorityItem \<Rightarrow> PriorityBuffer result" where
  "produce self item =
     (case acquire (empty_slots self) of
        Blocked \<Rightarrow> Blocked
      | Raised e \<Rightarrow> Raised e
      | Done es \<Rightarrow>
          (case put (buffer self) item of
             Blocked \<Rightarrow> Blocked
           | Raised e \<Rightarrow> Raised e
           | Done q \<Rightarrow>
               (case (if in_Priority (priority item)
                      then (case Priority_call (priority item) of
                              Blocked \<Rightarrow> Blocked
                            | Raised e \<Rightarrow> Raised e
                            | Done p \<Rightarrow> dict_incr (items_by_priority self) p)
                      else Done (items_by_priority self)) of
                  Blocked \<Rightarrow> Blocked
                | Raised e \<Rightarrow> Raised e
                | Done d \<Rightarrow>
                    Done (self\<lparr>empty_slots := es,
                               buffer := q,
                               total_produced := total_produced self + 1,
                               items_by_priority := d,
                               filled_slots := release (filled_slots self)\<rparr>))))"

definition consume :: "PriorityBuffer \<Rightarrow> (PriorityItem \<times> PriorityBuffer) result" where
  "consume self =
     (case acquire (filled_slots self) of
        Blocked \<Rightarrow> Blocked
      | Raised e \<Rightarrow> Raised e
      | Done fs \<Rightarrow>
          (case get (buffer self) of
             Blocked \<Rightarrow> Blocked
           | Raised e \<Rightarrow> Raised e
           | Done (item, q) \<Rightarrow>
               Done (item, self\<lparr>filled_slots := fs,
                                 buffer := q,
                                 total_consumed := total_consumed self + 1,
                                 empty_slots := release (empty_slots self)\<rparr>)))"

text \<open>\<^verbatim>\<open>get_stats\<close>: the snapshot dictionary, with the counts keyed by member name.\<close>

record stats =
  stat_size :: int
  stat_max_size :: int
  stat_total_produced :: int
  stat_total_consumed :: int
  stat_items_by_priority :: "(string \<times> int) list"

definition get_stats :: "PriorityBuffer \<Rightarrow> stats" where
  "get_stats self =
     \<lparr>stat_size = qsize (buffer self),
      stat_max_size = max_size self,
      stat_total_produced = total_produced self,
      stat_total_consumed = total_consumed self,
      stat_items_by_priority = map (\<lambda>(p, count). (Priority_name p, count)) (items_by_priority self)\<rparr>"

text \<open>
  A sequential run: a list of calls, each started after the one before has returned.
  The run ends with the first call that does not return; otherwise it yields the final
  buffer and the items the \<^verbatim>\<open>consume\<close> calls returned, in order.
\<close>

datatype op = Produce PriorityItem | Consume

fun run :: "PriorityBuffer \<Rightarrow> op list \<Rightarrow> (PriorityBuffer \<times> PriorityItem list) result" where
  "run s [] = Done (s, [])"
| "run s (Produce item # ops) =
     (case produce s item of
        Blocked \<Rightarrow> Blocked
      | Raised e \<Rightarrow> Raised e
      | Done s' \<Rightarrow> run s' ops)"
| "run s (Consume # ops) =
     (case consume s of
        Blocked \<Rightarrow> Blocked
      | Raised e \<Rightarrow> Raised e
      | Done (item, s') \<Rightarrow>
          (case run s' ops of
             Blocked \<Rightarrow> Blocked
           | Raised e \<Rightarrow> Raised e
           | Done (t, outs) \<Rightarrow> Done (t, item # outs)))"

section \<open>The controller of \<^verbatim>\<open>app.py\<close>\<close>

text \<open>
  The workers, as the controller sees them: the fields their constructors set. The delay
  ranges (floating-point seconds) and the reference to the shared buffer, which is the
  controller's own buffer, are left out.
\<close>

record Producer =
  producer_id :: int
  num_items :: int
  producer_running :: bool
  item_counter :: int

record Consumer =
  consumer_id :: int
  consumer_running :: bool
  consumed_count :: int

definition Producer_init :: "int \<Rightarrow> int \<Rightarrow> Producer" where
  "Producer_init pid n =
     \<lparr>producer_id = pid, num_items = n, producer_running = True, item_counter = 0\<rparr>"

definition Consumer_init :: "int \<Rightarrow> Consumer" where
  "Consumer_init cid = \<lparr>consumer_id = cid, consumer_running = True, consumed_count = 0\<rparr>"

text \<open>
  A thread handed to \<^verbatim>\<open>start()\<close>: a producer or consumer worker, the monitor, or the
  one-shot thread of \<^verbatim>\<open>add_item\<close> whose target is \<^verbatim>\<open>buffer.produce\<close> with the
  given item. What a started thread then does runs concurrently and is not part of the
  handler's own effect.
\<close>

datatype thread =
    ProducerThread Producer
  | ConsumerThread Consumer
  | MonitorThread
  | ProduceThread PriorityItem

text \<open>
  The module's global state, and the list of threads started so far (the effect of the
  \<^verbatim>\<open>start()\<close> calls).
\<close>

record app_state =
  global_buffer :: "PriorityBuffer option"
  producers :: "Producer list"
  consumers :: "Consumer list"
  system_running :: bool
  monitor_thread :: "thread option"
  started :: "thread list"

definition initial_state :: app_state where
  "initial_state =
     \<lparr>global_buffer = None, producers = [], consumers = [], system_running = False,
      monitor_thread = None, started = []\<rparr>"

text \<open>
  What a request handler answers: an error body with its HTTP status, one of the success
  bodies, or no answer because an exception left the handler (\<open>Unhandled\<close>) or the
  handler never returned (\<open>NoResponse\<close>).
\<close>

datatype response =
    ErrorResponse string nat
  | SystemStarted int int int int
  | SystemStopped
  | ItemAdded string string
  | Unhandled error
  | NoResponse

text \<open>\<^verbatim>\<open>d.get(key, default)\<close> on a JSON object.\<close>

definition dict_get :: "(string \<rightharpoonup> 'v) \<Rightarrow> string \<Rightarrow> 'v \<Rightarrow> 'v" where
  "dict_get d k dflt = (case d k of None \<Rightarrow> dflt | Some v \<Rightarrow> v)"

text \<open>\<^verbatim>\<open>range(n)\<close>: empty when \<open>n \<le> 0\<close>.\<close>

definition py_range :: "int \<Rightarrow> int list" where
  "py_range n = map int [0..<nat n]"

text \<open>
  \<^verbatim>\<open>start_system\<close>. The request body is a JSON object, here with integer values.
  No value is checked before use.
\<close>

definition start_system :: "app_state \<Rightarrow> (string \<rightharpoonup> int) \<Rightarrow> response \<times> app_state" where
  "start_system st req =
     (if system_running st then (ErrorResponse ''System already running'' 400, st)
      else
        (let n_producers = dict_get req ''num_producers'' 2;
             n_consumers = dict_get req ''num_consumers'' 3;
             items_per_producer = dict_get req ''items_per_producer'' 20;
             buffer_size = dict_get req ''buffer_size'' 10
         in case PriorityBuffer_init buffer_size of
              Blocked \<Rightarrow> (NoResponse, st)
            | Raised e \<Rightarrow> (Unhandled e, st)
            | Done b \<Rightarrow>
                (let ps = map (\<lambda>i. Producer_init (i + 1) items_per_producer) (py_range n_producers);
                     cs = map (\<lambda>i. Consumer_init (i + 1)) (py_range n_consumers)
                 in (SystemStarted n_producers n_consumers items_per_producer buffer_size,
                     st\<lparr>global_buffer := Some b,
                        producers := ps,
                        consumers := cs,
                        system_running := True,
                        monitor_thread := Some MonitorThread,
                        started := started st @ map ProducerThread ps @ map ConsumerThread cs
                                   @ [MonitorThread]\<rparr>))))"

text \<open>\<^verbatim>\<open>stop_system\<close>: every worker's flag is cleared; the buffer stays.\<close>

definition stop_system :: "app_state \<Rightarrow> response \<times> app_state" where
  "stop_system st =
     (if \<not> system_running st then (ErrorResponse ''System not running'' 400, st)
      else (SystemStopped,
            st\<lparr>producers := map (\<lambda>p. p\<lparr>producer_running := False\<rparr>) (producers st),
               consumers := map (\<lambda>c. c\<lparr>consumer_running := False\<rparr>) (consumers st),
               system_running := False\<rparr>))"

text \<open>
  \<^verbatim>\<open>add_item\<close>, called at time \<open>now\<close> with a JSON object of string values. The test
  \<^verbatim>\<open>if not buffer\<close> is true exactly when the global is still \<^verbatim>\<open>None\<close> (a
  \<^verbatim>\<open>PriorityBuffer\<close> object is always truthy). The item is not inserted by the handler:
  a new thread is started to call \<^verbatim>\<open>buffer.produce(item)\<close>.
\<close>

definition add_item :: "app_state \<Rightarrow> rat \<Rightarrow> (string \<rightharpoonup> string) \<Rightarrow> response \<times> app_state" where
  "add_item st now req =
     (case global_buffer st of
        None \<Rightarrow> (ErrorResponse ''System not initialized'' 400, st)
      | Some b \<Rightarrow>
          (let priority_name = dict_get req ''priority'' ''MEDIUM'';
               item_data = dict_get req ''data'' ''Manual item''
           in case Priority_getitem priority_name of
                Blocked \<Rightarrow> (NoResponse, st)
              | Raised KeyError \<Rightarrow> (ErrorResponse (''Invalid priority: '' @ priority_name) 400, st)
              | Raised e \<Rightarrow> (Unhandled e, st)
              | Done p \<Rightarrow>
                  (let item = PriorityItem_new now (Priority_value p) (- 1) item_data None
                   in (ItemAdded priority_name item_data,
                       st\<lparr>started := started st @ [ProduceThread item]\<rparr>))))"

section \<open>Invariants and concrete inputs\<close>

text \<open>
  What every completed operation keeps true of a buffer: the queue's bound is the
  buffer's capacity, the two semaphores count the free and the filled slots, the two
  counters differ by the number of queued items, and the dictionary keeps its four keys.
\<close>

definition buffer_inv :: "PriorityBuffer \<Rightarrow> bool" where
  "buffer_inv s \<longleftrightarrow>
     maxsize (buffer s) = max_size s \<and>
     int (empty_slots s) + qsize (buffer s) = max_size s \<and>
     int (filled_slots s) = qsize (buffer s) \<and>
     total_produced s - total_consumed s = qsize (buffer s) \<and>
     map fst (items_by_priority s) = all_Priority"

text \<open>The heap order of \<^verbatim>\<open>heapq\<close>: no entry is smaller than its parent.\<close>

definition is_heap :: "PriorityItem list \<Rightarrow> bool" where
  "is_heap h \<longleftrightarrow> (\<forall>i \<in> {1..<length h}. \<not> item_lt (h ! i) (h ! ((i - 1) div 2)))"

text \<open>
  Two items of equal priority: one made by a producer as its sixth item, and a later one
  injected through \<^verbatim>\<open>add_item\<close>, which carries the id \<open>-1\<close>.
\<close>

definition item_a :: PriorityItem where
  "item_a = \<lparr>priority = 2, item_id = 5, data = ''Producer-1-Item-5'', timestamp = 100\<rparr>"

definition item_b :: PriorityItem where
  "item_b = \<lparr>priority = 2, item_id = - 1, data = ''Manual item'', timestamp = 200\<rparr>"

text \<open>The controller after one \<^verbatim>\<open>start_system\<close> request with an empty body.\<close>

definition started_state :: app_state where
  "started_state = snd (start_system initial_state Map.empty)"

text \<open>The items a sequence of calls hands to \<^verbatim>\<open>produce\<close>, in order.\<close>

fun produced :: "op list \<Rightarrow> PriorityItem list" where
  "produced [] = []"
| "produced (Produce item # ops) = item # produced ops"
| "produced (Consume # ops) = produced ops"

text \<open>
  The two weakened heap orders that hold inside the loops of \<^verbatim>\<open>heapq\<close>. While
  \<^verbatim>\<open>_siftdown\<close> carries an item up from \<open>pos\<close>, every entry but the one at \<open>pos\<close> is
  in order with its parent, and the children of \<open>pos\<close> are in order with its parent.
  While \<^verbatim>\<open>_siftup\<close> moves the free position \<open>pos\<close> down, the same holds except that
  nothing is required between \<open>pos\<close> and its children.
\<close>

definition heap_except_up :: "PriorityItem list \<Rightarrow> nat \<Rightarrow> bool" where
  "heap_except_up h pos \<longleftrightarrow>
     (\<forall>i \<in> {1..<length h}. i \<noteq> pos \<longrightarrow> \<not> item_lt (h ! i) (h ! ((i - 1) div 2))) \<and>
     (\<forall>i \<in> {1..<length h}. (i - 1) div 2 = pos \<and> 0 < pos \<longrightarrow>
         \<not> item_lt (h ! i) (h ! ((pos - 1) div 2)))"

definition heap_except_down :: "PriorityItem list \<Rightarrow> nat \<Rightarrow> bool" where
  "heap_except_down h pos \<longleftrightarrow>
     (\<forall>i \<in> {1..<length h}. i \<noteq> pos \<and> (i - 1) div 2 \<noteq> pos \<longrightarrow>
         \<not> item_lt (h ! i) (h ! ((i - 1) div 2))) \<and>
     (\<forall>i \<in> {1..<length h}. (i - 1) div 2 = pos \<and> 0 < pos \<longrightarrow>
         \<not> item_lt (h ! i) (h ! ((pos - 1) div 2)))"

text \<open>Four items of one producer, with the priorities low, critical, medium and high.\<close>

definition item_low :: PriorityItem where
  "item_low = \<lparr>priority = 4, item_id = 0, data = ''Producer-1-Item-0'', timestamp = 10\<rparr>"

definition item_critical :: PriorityItem where
  "item_critical = \<lparr>priority = 1, item_id = 1, data = ''Producer-1-Item-1'', timestamp = 11\<rparr>"

definition item_medium :: PriorityItem where
  "item_medium = \<lparr>priority = 3, item_id = 2, data = ''Producer-1-Item-2'', timestamp = 12\<rparr>"

definition item_high :: PriorityItem where
  "item_high = \<lparr>priority = 2, item_id = 3, data = ''Producer-1-Item-3'', timestamp = 13\<rparr>"

section \<open>Sizes, semaphores and counters\<close>

declare siftdown_loop.simps [simp del] siftup_loop.simps [simp del]

lemma siftdown_loop_length:
  "length (fst (siftdown_loop heap sp x pos)) = length heap"
proof (induction heap sp x pos rule: siftdown_loop.induct)
  case (1 heap startpos newitem pos)
  then show ?case
    by (subst siftdown_loop.simps) simp
qed

lemma siftdown_length: "length (siftdown heap sp pos) = length heap"
  using siftdown_loop_length [of heap sp "heap ! pos" pos]
  by (cases "siftdown_loop heap sp (heap ! pos) pos") (simp add: siftdown_def)

lemma siftup_loop_length:
  "length (fst (siftup_loop heap e pos)) = length heap"
proof (induction heap e pos rule: siftup_loop.induct)
  case (1 heap endpos pos)
  then show ?case
    by (subst siftup_loop.simps) simp
qed

lemma siftup_length: "length (siftup heap pos) = length heap"
  using siftup_loop_length [of heap "length heap" pos]
  by (cases "siftup_loop heap (length heap) pos") (simp add: siftup_def siftdown_length)

lemma heappush_length: "length (heappush heap item) = Suc (length heap)"
  by (simp add: heappush_def siftdown_length)

lemma heappop_length:
  "heappop heap = Done (x, h) \<Longrightarrow> Suc (length h) = length heap"
  by (cases heap rule: rev_cases) (auto simp: heappop_def Let_def siftup_length split: if_splits)

lemma heappop_nonempty:
  "heap \<noteq> [] \<Longrightarrow> \<exists>x h. heappop heap = Done (x, h)"
  by (simp add: heappop_def Let_def)

lemma init_buffer_inv: "PriorityBuffer_init ms = Done s \<Longrightarrow> buffer_inv s"
  by (auto simp: PriorityBuffer_init_def Semaphore_init_def buffer_inv_def PriorityQueue_init_def
      qsize_def comp_def split: if_splits)

lemma dict_incr_keys:
  "dict_incr d k = Done d' \<Longrightarrow> map fst d' = map fst d"
  by (auto simp: dict_incr_def split: option.splits)

lemma produce_buffer_inv:
  assumes "buffer_inv s" and "produce s item = Done s'"
  shows "buffer_inv s'"
  using assms
  by (auto simp: produce_def buffer_inv_def acquire_def release_def put_def qsize_def
      heappush_length dest: dict_incr_keys split: if_splits result.splits)

lemma consume_buffer_inv:
  assumes "buffer_inv s" and "consume s = Done (x, s')"
  shows "buffer_inv s'"
  using assms
  by (auto simp: consume_def buffer_inv_def acquire_def release_def get_def qsize_def
      dest!: heappop_length split: if_splits result.splits)

lemma run_buffer_inv:
  "buffer_inv s \<Longrightarrow> run s ops = Done (t, outs) \<Longrightarrow> buffer_inv t"
proof (induction s ops arbitrary: outs rule: run.induct)
  case (1 s)
  then show ?case by simp
next
  case (2 s item ops)
  then show ?case
    by (auto split: result.splits dest: produce_buffer_inv)
next
  case (3 s ops)
  from "3.prems" obtain x s' outs' where c: "consume s = Done (x, s')"
    and r: "run s' ops = Done (t, outs')"
    by (auto split: result.splits)
  from consume_buffer_inv [OF "3.prems"(1) c] have "buffer_inv s'" .
  with "3.IH" [OF c refl _ r] show ?case by simp
qed

lemma in_Priority_call:
  "in_Priority v \<Longrightarrow> \<exists>p. Priority_call v = Done p \<and> Priority_value p = v"
  by (auto simp: in_Priority_def Priority_call_def all_Priority_def)

lemma all_Priority_set: "set all_Priority = UNIV"
proof -
  have "p \<in> set all_Priority" for p
    by (cases p) (simp_all add: all_Priority_def)
  then show ?thesis by blast
qed

lemma dict_incr_Done:
  assumes "map fst d = all_Priority"
  shows "\<exists>d'. dict_incr d p = Done d'"
proof -
  have "fst ` set d = UNIV"
    using assms all_Priority_set by (metis list.set_map)
  then have "p \<in> fst ` set d" by simp
  then have "map_of d p \<noteq> None"
    by (simp add: map_of_eq_None_iff)
  then show ?thesis by (auto simp: dict_incr_def)
qed

lemma produce_unfold:
  "produce s item =
     (if empty_slots s = 0 then Blocked
      else if maxsize (buffer s) > 0 \<and> qsize (buffer s) \<ge> maxsize (buffer s) then Blocked
      else
        (case (if in_Priority (priority item)
               then (case Priority_call (priority item) of
                       Blocked \<Rightarrow> Blocked
                     | Raised e \<Rightarrow> Raised e
                     | Done p \<Rightarrow> dict_incr (items_by_priority s) p)
               else Done (items_by_priority s)) of
           Blocked \<Rightarrow> Blocked
         | Raised e \<Rightarrow> Raised e
         | Done d \<Rightarrow>
             Done (s\<lparr>empty_slots := empty_slots s - 1,
                     buffer := (buffer s)\<lparr>queue := heappush (queue (buffer s)) item\<rparr>,
                     total_produced := total_produced s + 1,
                     items_by_priority := d,
                     filled_slots := filled_slots s + 1\<rparr>)))"
  by (simp add: produce_def acquire_def put_def release_def cong: result.case_cong)

lemma consume_unfold:
  "consume s =
     (if filled_slots s = 0 then Blocked
      else if qsize (buffer s) = 0 then Blocked
      else
        (case heappop (queue (buffer s)) of
           Blocked \<Rightarrow> Blocked
         | Raised e \<Rightarrow> Raised e
         | Done (item, h) \<Rightarrow>
             Done (item, s\<lparr>filled_slots := filled_slots s - 1,
                             buffer := (buffer s)\<lparr>queue := h\<rparr>,
                             total_consumed := total_consumed s + 1,
                             empty_slots := empty_slots s + 1\<rparr>)))"
  by (simp add: consume_def acquire_def get_def release_def cong: result.case_cong split: result.splits)

lemma counts_Done:
  assumes "map fst (items_by_priority s) = all_Priority"
  shows "\<exists>d. (if in_Priority (priority item)
               then (case Priority_call (priority item) of
                       Blocked \<Rightarrow> Blocked
                     | Raised e \<Rightarrow> Raised e
                     | Done p \<Rightarrow> dict_incr (items_by_priority s) p)
               else Done (items_by_priority s)) = Done d"
proof (cases "in_Priority (priority item)")
  case True
  then obtain p where "Priority_call (priority item) = Done p"
    using in_Priority_call by blast
  with True dict_incr_Done [OF assms, of p] show ?thesis by simp
next
  case False
  then show ?thesis by simp
qed

lemma produce_enabled:
  assumes "buffer_inv s"
  shows "((\<exists>s'. produce s item = Done s') \<longleftrightarrow> qsize (buffer s) < max_size s) \<and>
         (produce s item = Blocked \<longleftrightarrow> qsize (buffer s) = max_size s)"
proof -
  from assms have k: "map fst (items_by_priority s) = all_Priority"
    and m: "maxsize (buffer s) = max_size s"
    and e: "int (empty_slots s) + qsize (buffer s) = max_size s"
    by (simp_all add: buffer_inv_def)
  from counts_Done [OF k, of item] obtain u where
    u: "(if in_Priority (priority item)
         then (case Priority_call (priority item) of
                 Blocked \<Rightarrow> Blocked
               | Raised e \<Rightarrow> Raised e
               | Done p \<Rightarrow> dict_incr (items_by_priority s) p)
         else Done (items_by_priority s)) = Done u" ..
  have "\<not> qsize (buffer s) < max_size s \<longleftrightarrow> empty_slots s = 0"
    using e by auto
  moreover have "qsize (buffer s) = max_size s \<longleftrightarrow> empty_slots s = 0"
    using e by auto
  moreover have "empty_slots s \<noteq> 0 \<Longrightarrow>
      \<not> (maxsize (buffer s) > 0 \<and> qsize (buffer s) \<ge> maxsize (buffer s))"
    using e m by auto
  ultimately show ?thesis
    unfolding produce_unfold u by (cases "empty_slots s = 0") simp_all
qed

lemma consume_enabled:
  assumes "buffer_inv s"
  shows "((\<exists>x s'. consume s = Done (x, s')) \<longleftrightarrow> 0 < qsize (buffer s)) \<and>
         (consume s = Blocked \<longleftrightarrow> qsize (buffer s) = 0)"
proof -
  from assms have f: "int (filled_slots s) = qsize (buffer s)"
    by (simp add: buffer_inv_def)
  show ?thesis
  proof (cases "queue (buffer s) = []")
    case True
    with f show ?thesis by (simp add: consume_unfold qsize_def)
  next
    case False
    with heappop_nonempty obtain x h where "heappop (queue (buffer s)) = Done (x, h)"
      by blast
    with False f show ?thesis
      by (simp add: consume_unfold qsize_def)
  qed
qed

lemma produce_max_size: "produce s item = Done s' \<Longrightarrow> max_size s' = max_size s"
  unfolding produce_unfold by (auto split: result.splits if_splits)

lemma consume_max_size: "consume s = Done (x, s') \<Longrightarrow> max_size s' = max_size s"
  unfolding consume_unfold by (auto split: result.splits if_splits)

lemma run_max_size: "run s ops = Done (t, outs) \<Longrightarrow> max_size t = max_size s"
proof (induction s ops arbitrary: outs rule: run.induct)
  case (1 s)
  then show ?case by simp
next
  case (2 s item ops)
  then show ?case
    by (auto split: result.splits dest: produce_max_size)
next
  case (3 s ops)
  from "3.prems" obtain x s' outs' where c: "consume s = Done (x, s')"
    and r: "run s' ops = Done (t, outs')"
    by (auto split: result.splits)
  from "3.IH" [OF c refl r] consume_max_size [OF c] show ?case by simp
qed

lemma init_max_size: "PriorityBuffer_init ms = Done s \<Longrightarrow> max_size s = ms"
  by (auto simp: PriorityBuffer_init_def Semaphore_init_def split: if_splits)

text \<open>
  Claim C3. After any sequence of completed \<^verbatim>\<open>produce\<close> and \<^verbatim>\<open>consume\<close> calls on
  a buffer constructed with capacity \<open>ms\<close>, the size that \<^verbatim>\<open>get_stats\<close> reports lies
  between 0 and the reported capacity, which is still \<open>ms\<close>. A further \<^verbatim>\<open>produce\<close>
  returns exactly when a slot is free and waits exactly when the buffer is full; a
  further \<^verbatim>\<open>consume\<close> returns exactly when an item is present and waits exactly when
  the buffer is empty.
\<close>

theorem size_within_capacity:
  assumes "PriorityBuffer_init ms = Done s0" and "run s0 ops = Done (s, outs)"
  shows "0 \<le> stat_size (get_stats s) \<and>
         stat_size (get_stats s) \<le> stat_max_size (get_stats s) \<and>
         stat_max_size (get_stats s) = ms \<and>
         ((\<exists>s'. produce s item = Done s') \<longleftrightarrow> stat_size (get_stats s) < ms) \<and>
         (produce s item = Blocked \<longleftrightarrow> stat_size (get_stats s) = ms) \<and>
         ((\<exists>x s'. consume s = Done (x, s')) \<longleftrightarrow> 0 < stat_size (get_stats s)) \<and>
         (consume s = Blocked \<longleftrightarrow> stat_size (get_stats s) = 0)"
proof -
  have inv: "buffer_inv s"
    using run_buffer_inv [OF init_buffer_inv [OF assms(1)] assms(2)] .
  have ms: "max_size s = ms"
    using run_max_size [OF assms(2)] init_max_size [OF assms(1)] by simp
  have "0 \<le> qsize (buffer s)" by (simp add: qsize_def)
  moreover have "qsize (buffer s) \<le> max_size s"
    using inv by (simp add: buffer_inv_def)
  ultimately show ?thesis
    using produce_enabled [OF inv, of item] consume_enabled [OF inv] ms
    by (simp add: get_stats_def)
qed

theorem size_within_capacity_witness:
  "PriorityBuffer_init 1 =
     Done \<lparr>max_size = 1, buffer = \<lparr>maxsize = 1, queue = []\<rparr>, empty_slots = 1,
           filled_slots = 0, total_produced = 0, total_consumed = 0,
           items_by_priority = [(CRITICAL, 0), (HIGH, 0), (MEDIUM, 0), (LOW, 0)]\<rparr> \<and>
   run \<lparr>max_size = 1, buffer = \<lparr>maxsize = 1, queue = []\<rparr>, empty_slots = 1,
        filled_slots = 0, total_produced = 0, total_consumed = 0,
        items_by_priority = [(CRITICAL, 0), (HIGH, 0), (MEDIUM, 0), (LOW, 0)]\<rparr>
       [Produce item_a, Consume, Produce item_b] =
     Done (\<lparr>max_size = 1, buffer = \<lparr>maxsize = 1, queue = [item_b]\<rparr>, empty_slots = 0,
            filled_slots = 1, total_produced = 2, total_consumed = 1,
            items_by_priority = [(CRITICAL, 0), (HIGH, 2), (MEDIUM, 0), (LOW, 0)]\<rparr>,
           [item_a]) \<and>
   stat_size (get_stats
     \<lparr>max_size = 1, buffer = \<lparr>maxsize = 1, queue = [item_b]\<rparr>, empty_slots = 0,
      filled_slots = 1, total_produced = 2, total_consumed = 1,
      items_by_priority = [(CRITICAL, 0), (HIGH, 2), (MEDIUM, 0), (LOW, 0)]\<rparr>) = 1 \<and>
   produce
     \<lparr>max_size = 1, buffer = \<lparr>maxsize = 1, queue = [item_b]\<rparr>, empty_slots = 0,
      filled_slots = 1, total_produced = 2, total_consumed = 1,
      items_by_priority = [(CRITICAL, 0), (HIGH, 2), (MEDIUM, 0), (LOW, 0)]\<rparr> item_a = Blocked"
proof -
  let ?start = "\<lparr>max_size = 1, buffer = \<lparr>maxsize = 1, queue = []\<rparr>, empty_slots = 1,
           filled_slots = 0, total_produced = 0, total_consumed = 0,
           items_by_priority = [(CRITICAL, 0), (HIGH, 0), (MEDIUM, 0), (LOW, 0)]\<rparr>"
  let ?final = "\<lparr>max_size = 1, buffer = \<lparr>maxsize = 1, queue = [item_b]\<rparr>, empty_slots = 0,
            filled_slots = 1, total_produced = 2, total_consumed = 1,
            items_by_priority = [(CRITICAL, 0), (HIGH, 2), (MEDIUM, 0), (LOW, 0)]\<rparr>"
  have i: "PriorityBuffer_init 1 = Done ?start"
    by (simp add: PriorityBuffer_init_def Semaphore_init_def PriorityQueue_init_def all_Priority_def)
  have r: "run ?start [Produce item_a, Consume, Produce item_b] = Done (?final, [item_a])"
    by code_simp
  have z: "stat_size (get_stats ?final) = 1"
    by (simp add: get_stats_def qsize_def)
  have b: "produce ?final item_a = Blocked"
    using size_within_capacity [OF i r, of item_a] z by simp
  from i r z b show ?thesis
    by (intro conjI)
qed

text \<open>
  Claim C4. After any sequence of completed \<^verbatim>\<open>produce\<close> and \<^verbatim>\<open>consume\<close> calls on
  a fresh buffer, the statistics satisfy
  \<open>total_produced - total_consumed = size\<close>.
\<close>

theorem produced_minus_consumed_is_size:
  assumes "PriorityBuffer_init ms = Done s0" and "run s0 ops = Done (s, outs)"
  shows "stat_total_produced (get_stats s) - stat_total_consumed (get_stats s)
         = stat_size (get_stats s)"
  using run_buffer_inv [OF init_buffer_inv [OF assms(1)] assms(2)]
  by (simp add: buffer_inv_def get_stats_def)

theorem produced_minus_consumed_is_size_witness:
  "PriorityBuffer_init 3 =
     Done \<lparr>max_size = 3, buffer = \<lparr>maxsize = 3, queue = []\<rparr>, empty_slots = 3,
           filled_slots = 0, total_produced = 0, total_consumed = 0,
           items_by_priority = [(CRITICAL, 0), (HIGH, 0), (MEDIUM, 0), (LOW, 0)]\<rparr> \<and>
   run \<lparr>max_size = 3, buffer = \<lparr>maxsize = 3, queue = []\<rparr>, empty_slots = 3,
        filled_slots = 0, total_produced = 0, total_consumed = 0,
        items_by_priority = [(CRITICAL, 0), (HIGH, 0), (MEDIUM, 0), (LOW, 0)]\<rparr>
       [Produce item_a, Produce item_b, Consume, Produce item_a] =
     Done (\<lparr>max_size = 3, buffer = \<lparr>maxsize = 3, queue = [item_a, item_a]\<rparr>, empty_slots = 1,
            filled_slots = 2, total_produced = 3, total_consumed = 1,
            items_by_priority = [(CRITICAL, 0), (HIGH, 3), (MEDIUM, 0), (LOW, 0)]\<rparr>,
           [item_b]) \<and>
   stat_total_produced (get_stats
     \<lparr>max_size = 3, buffer = \<lparr>maxsize = 3, queue = [item_a, item_a]\<rparr>, empty_slots = 1,
      filled_slots = 2, total_produced = 3, total_consumed = 1,
      items_by_priority = [(CRITICAL, 0), (HIGH, 3), (MEDIUM, 0), (LOW, 0)]\<rparr>)
   - stat_total_consumed (get_stats
     \<lparr>max_size = 3, buffer = \<lparr>maxsize = 3, queue = [item_a, item_a]\<rparr>, empty_slots = 1,
      filled_slots = 2, total_produced = 3, total_consumed = 1,
      items_by_priority = [(CRITICAL, 0), (HIGH, 3), (MEDIUM, 0), (LOW, 0)]\<rparr>)
   = 2"
proof -
  let ?start = "\<lparr>max_size = 3, buffer = \<lparr>maxsize = 3, queue = []\<rparr>, empty_slots = 3,
           filled_slots = 0, total_produced = 0, total_consumed = 0,
           items_by_priority = [(CRITICAL, 0), (HIGH, 0), (MEDIUM, 0), (LOW, 0)]\<rparr>"
  let ?final = "\<lparr>max_size = 3, buffer = \<lparr>maxsize = 3, queue = [item_a, item_a]\<rparr>, empty_slots = 1,
            filled_slots = 2, total_produced = 3, total_consumed = 1,
            items_by_priority = [(CRITICAL, 0), (HIGH, 3), (MEDIUM, 0), (LOW, 0)]\<rparr>"
  have i: "PriorityBuffer_init 3 = Done ?start"
    by code_simp
  have r: "run ?start [Produce item_a, Produce item_b, Consume, Produce item_a] = Done (?final, [item_b])"
    by code_simp
  have z: "stat_size (get_stats ?final) = 2"
    by (simp add: get_stats_def qsize_def)
  have c: "stat_total_produced (get_stats ?final) - stat_total_consumed (get_stats ?final) = 2"
    using produced_minus_consumed_is_size [OF i r] z by simp
  from i r c show ?thesis
    by (intro conjI)
qed

section \<open>The buffer constructor and the controller\<close>

text \<open>
  Claim C6, as stated, fails: the constructor has no check of its own, and both the queue
  and the semaphore accept the size 0, so the construction returns a buffer.
\<close>

theorem zero_capacity_is_constructed:
  "PriorityBuffer_init 0 =
     Done \<lparr>max_size = 0, buffer = \<lparr>maxsize = 0, queue = []\<rparr>, empty_slots = 0,
           filled_slots = 0, total_produced = 0, total_consumed = 0,
           items_by_priority = [(CRITICAL, 0), (HIGH, 0), (MEDIUM, 0), (LOW, 0)]\<rparr>"
  by code_simp

text \<open>
  Claim C6, amended. Constructing a buffer with capacity 0 succeeds: the result is an empty
  buffer that reports capacity 0, on which every \<^verbatim>\<open>produce\<close> waits forever, since no
  slot is ever free, and so does \<^verbatim>\<open>consume\<close>.
\<close>

theorem zero_capacity_blocks:
  "\<exists>s. PriorityBuffer_init 0 = Done s \<and> stat_max_size (get_stats s) = 0 \<and>
       stat_size (get_stats s) = 0 \<and> (\<forall>item. produce s item = Blocked) \<and>
       consume s = Blocked"
  by (simp add: PriorityBuffer_init_def Semaphore_init_def PriorityQueue_init_def get_stats_def
      qsize_def produce_unfold consume_unfold)

text \<open>
  Claim C7, as stated, fails: a start request with \<^verbatim>\<open>num_producers = 0\<close> is answered
  with \<^verbatim>\<open>System started\<close> and the session is marked as running, with no producer.
\<close>

theorem start_accepts_zero_producers:
  "start_system initial_state (Map.empty(''num_producers'' \<mapsto> 0)) =
     (SystemStarted 0 3 20 10,
      \<lparr>global_buffer =
         Some \<lparr>max_size = 10, buffer = \<lparr>maxsize = 10, queue = []\<rparr>, empty_slots = 10,
               filled_slots = 0, total_produced = 0, total_consumed = 0,
               items_by_priority = [(CRITICAL, 0), (HIGH, 0), (MEDIUM, 0), (LOW, 0)]\<rparr>,
       producers = [],
       consumers = [Consumer_init 1, Consumer_init 2, Consumer_init 3],
       system_running = True,
       monitor_thread = Some MonitorThread,
       started = [ConsumerThread (Consumer_init 1), ConsumerThread (Consumer_init 2),
                  ConsumerThread (Consumer_init 3), MonitorThread]\<rparr>)"
  by code_simp

lemma init_nonneg:
  "0 \<le> bs \<Longrightarrow> \<exists>b. PriorityBuffer_init bs = Done b \<and> max_size b = bs \<and> queue (buffer b) = []"
  by (simp add: PriorityBuffer_init_def Semaphore_init_def PriorityQueue_init_def)

text \<open>
  Claim C7, amended. The controller does not validate the configuration. While no session
  is running, every start request whose buffer size is not negative is accepted, also
  when the number of producers, the number of consumers or the items per producer is zero
  or negative and when the buffer size is zero: a buffer of that capacity is created,
  \<open>max(numProducers, 0)\<close> producers, each with the requested item budget, and
  \<open>max(numConsumers, 0)\<close> consumers and the monitor are started, the session is marked
  as running, and the answer echoes the four values as they were given.
\<close>

theorem start_system_no_validation:
  assumes "\<not> system_running st"
    and "dict_get req ''num_producers'' 2 = np"
    and "dict_get req ''num_consumers'' 3 = nc"
    and "dict_get req ''items_per_producer'' 20 = ipp"
    and "dict_get req ''buffer_size'' 10 = bs"
    and "0 \<le> bs"
  shows "\<exists>b st'. start_system st req = (SystemStarted np nc ipp bs, st') \<and>
           system_running st' \<and>
           global_buffer st' = Some b \<and> stat_max_size (get_stats b) = bs \<and>
           stat_size (get_stats b) = 0 \<and>
           length (producers st') = nat np \<and>
           length (consumers st') = nat nc \<and>
           list_all (\<lambda>p. num_items p = ipp) (producers st') \<and>
           started st' = started st @ map ProducerThread (producers st')
                         @ map ConsumerThread (consumers st') @ [MonitorThread]"
proof -
  from init_nonneg [OF assms(6)] obtain b where
    b: "PriorityBuffer_init bs = Done b" "max_size b = bs" "queue (buffer b) = []"
    by blast
  show ?thesis
    using assms(1-5) b
    by (simp add: start_system_def Let_def get_stats_def qsize_def py_range_def
        list_all_iff Producer_init_def)
qed

theorem start_system_no_validation_witness:
  "\<not> system_running initial_state \<and>
   (\<exists>b st'. start_system initial_state
        (Map.empty(''num_producers'' \<mapsto> 1, ''num_consumers'' \<mapsto> - 1,
                   ''items_per_producer'' \<mapsto> 0, ''buffer_size'' \<mapsto> 0)) =
        (SystemStarted 1 (- 1) 0 0, st') \<and>
      system_running st' \<and> global_buffer st' = Some b \<and>
      stat_max_size (get_stats b) = 0 \<and>
      length (producers st') = 1 \<and> length (consumers st') = 0 \<and>
      list_all (\<lambda>p. num_items p = 0) (producers st'))"
proof -
  let ?req = "Map.empty(''num_producers'' \<mapsto> 1::int, ''num_consumers'' \<mapsto> - 1,
                   ''items_per_producer'' \<mapsto> 0, ''buffer_size'' \<mapsto> 0)"
  have r: "\<not> system_running initial_state"
    by (simp add: initial_state_def)
  have g: "dict_get ?req ''num_producers'' 2 = 1" "dict_get ?req ''num_consumers'' 3 = - 1"
    "dict_get ?req ''items_per_producer'' 20 = 0" "dict_get ?req ''buffer_size'' 10 = 0"
    by (simp_all add: dict_get_def)
  have z: "(0::int) \<le> 0" by simp
  from start_system_no_validation [OF r g z] obtain b st' where
    "start_system initial_state ?req = (SystemStarted 1 (- 1) 0 0, st')"
    "system_running st'" "global_buffer st' = Some b" "stat_max_size (get_stats b) = 0"
    "length (producers st') = nat 1" "length (consumers st') = nat (- 1)"
    "list_all (\<lambda>p. num_items p = 0) (producers st')"
    by blast
  with r show ?thesis by (intro conjI exI [of _ b] exI [of _ "st'"]) simp_all
qed
lemma Priority_getitem_name: "Priority_getitem (Priority_name p) = Done p"
  by (cases p) (simp_all add: Priority_getitem_def all_Priority_def)

lemma Priority_getitem_unknown:
  assumes "n \<notin> {''CRITICAL'', ''HIGH'', ''MEDIUM'', ''LOW''}"
  shows "Priority_getitem n = Raised KeyError"
proof -
  from assms have "n \<noteq> ''CRITICAL''" "n \<noteq> ''HIGH''" "n \<noteq> ''MEDIUM''" "n \<noteq> ''LOW''"
    by blast+
  then have "filter (\<lambda>p. Priority_name p = n) all_Priority = []"
    unfolding all_Priority_def by (simp add: eq_commute [of _ n])
  then show ?thesis
    by (simp add: Priority_getitem_def)
qed

text \<open>
  Claim C8. While a buffer exists, an \<^verbatim>\<open>add_item\<close> request whose priority name is none
  of \<^verbatim>\<open>CRITICAL\<close>, \<^verbatim>\<open>HIGH\<close>, \<^verbatim>\<open>MEDIUM\<close>, \<^verbatim>\<open>LOW\<close> is answered with the error
  \<^verbatim>\<open>Invalid priority\<close> (status 400) and leaves the whole state, the buffer included,
  unchanged; a request with one of the four names builds an item with that priority's
  value, the id \<open>-1\<close>, the payload and the current time, and starts a thread that
  submits it to the buffer.
\<close>

theorem add_item_checks_priority:
  assumes "global_buffer st = Some b"
    and "dict_get req ''priority'' ''MEDIUM'' = n"
    and "dict_get req ''data'' ''Manual item'' = d"
  shows "(n \<notin> {''CRITICAL'', ''HIGH'', ''MEDIUM'', ''LOW''} \<longrightarrow>
            add_item st now req = (ErrorResponse (''Invalid priority: '' @ n) 400, st)) \<and>
         (\<forall>p. n = Priority_name p \<longrightarrow>
            add_item st now req =
              (ItemAdded n d,
               st\<lparr>started := started st @
                  [ProduceThread \<lparr>priority = Priority_value p, item_id = - 1, data = d,
                                  timestamp = now\<rparr>]\<rparr>))"
proof (intro conjI impI allI)
  assume "n \<notin> {''CRITICAL'', ''HIGH'', ''MEDIUM'', ''LOW''}"
  then have "Priority_getitem n = Raised KeyError"
    by (rule Priority_getitem_unknown)
  with assms show "add_item st now req = (ErrorResponse (''Invalid priority: '' @ n) 400, st)"
    by (simp add: add_item_def)
next
  fix p
  assume "n = Priority_name p"
  then have "Priority_getitem n = Done p"
    by (simp add: Priority_getitem_name)
  with assms show "add_item st now req =
              (ItemAdded n d,
               st\<lparr>started := started st @
                  [ProduceThread \<lparr>priority = Priority_value p, item_id = - 1, data = d,
                                  timestamp = now\<rparr>]\<rparr>)"
    by (simp add: add_item_def PriorityItem_new_def)
qed

theorem add_item_checks_priority_witness:
  "global_buffer started_state =
     Some \<lparr>max_size = 10, buffer = \<lparr>maxsize = 10, queue = []\<rparr>, empty_slots = 10,
           filled_slots = 0, total_produced = 0, total_consumed = 0,
           items_by_priority = [(CRITICAL, 0), (HIGH, 0), (MEDIUM, 0), (LOW, 0)]\<rparr> \<and>
   add_item started_state 7 (Map.empty(''priority'' \<mapsto> ''URGENT'')) =
     (ErrorResponse ''Invalid priority: URGENT'' 400, started_state) \<and>
   add_item started_state 7 (Map.empty(''priority'' \<mapsto> ''HIGH'')) =
     (ItemAdded ''HIGH'' ''Manual item'',
      started_state\<lparr>started := started started_state @
         [ProduceThread \<lparr>priority = 2, item_id = - 1, data = ''Manual item'', timestamp = 7\<rparr>]\<rparr>)"
proof -
  let ?b = "\<lparr>max_size = 10, buffer = \<lparr>maxsize = 10, queue = []\<rparr>, empty_slots = 10,
           filled_slots = 0, total_produced = 0, total_consumed = 0,
           items_by_priority = [(CRITICAL, 0), (HIGH, 0), (MEDIUM, 0), (LOW, 0)]\<rparr>"
  have g: "global_buffer started_state = Some ?b"
    by code_simp
  have u: "dict_get (Map.empty(''priority'' \<mapsto> ''URGENT'')) ''priority'' ''MEDIUM'' = ''URGENT''"
    by (simp add: dict_get_def)
  have h: "dict_get (Map.empty(''priority'' \<mapsto> ''HIGH'')) ''priority'' ''MEDIUM'' = ''HIGH''"
    by (simp add: dict_get_def)
  have du: "dict_get (Map.empty(''priority'' \<mapsto> ''URGENT'')) ''data'' ''Manual item'' = ''Manual item''"
    by (simp add: dict_get_def)
  have dh: "dict_get (Map.empty(''priority'' \<mapsto> ''HIGH'')) ''data'' ''Manual item'' = ''Manual item''"
    by (simp add: dict_get_def)
  have nu: "''URGENT'' \<notin> {''CRITICAL'', ''HIGH'', ''MEDIUM'', ''LOW''}"
    by simp
  have nh: "''HIGH'' = Priority_name HIGH"
    by simp
  have "add_item started_state 7 (Map.empty(''priority'' \<mapsto> ''URGENT'')) =
     (ErrorResponse (''Invalid priority: '' @ ''URGENT'') 400, started_state)"
    using add_item_checks_priority [OF g u du, of 7, THEN conjunct1] nu by (rule mp)
  then have a1: "add_item started_state 7 (Map.empty(''priority'' \<mapsto> ''URGENT'')) =
     (ErrorResponse ''Invalid priority: URGENT'' 400, started_state)"
    by simp
  have "add_item started_state 7 (Map.empty(''priority'' \<mapsto> ''HIGH'')) =
     (ItemAdded ''HIGH'' ''Manual item'',
      started_state\<lparr>started := started started_state @
         [ProduceThread \<lparr>priority = Priority_value HIGH, item_id = - 1, data = ''Manual item'',
                         timestamp = 7\<rparr>]\<rparr>)"
    using add_item_checks_priority [OF g h dh, of 7, THEN conjunct2, THEN spec, of HIGH] nh
    by (rule mp)
  then have a2: "add_item started_state 7 (Map.empty(''priority'' \<mapsto> ''HIGH'')) =
     (ItemAdded ''HIGH'' ''Manual item'',
      started_state\<lparr>started := started started_state @
         [ProduceThread \<lparr>priority = 2, item_id = - 1, data = ''Manual item'', timestamp = 7\<rparr>]\<rparr>)"
    by simp
  from g a1 a2 show ?thesis
    by (intro conjI)
qed

text \<open>
  Claim C10. While no buffer has been created (the global is still \<^verbatim>\<open>None\<close>), every
  \<^verbatim>\<open>add_item\<close> request, whatever priority name it carries, is answered with the error
  \<^verbatim>\<open>System not initialized\<close> (status 400) and changes nothing: the priority is not
  looked at and no thread is started.
\<close>

theorem add_item_not_initialized:
  assumes "global_buffer st = None"
  shows "add_item st now req = (ErrorResponse ''System not initialized'' 400, st)"
  using assms by (simp add: add_item_def)

theorem add_item_not_initialized_witness:
  "global_buffer initial_state = None \<and>
   add_item initial_state 7 (Map.empty(''priority'' \<mapsto> ''URGENT'')) =
     (ErrorResponse ''System not initialized'' 400, initial_state)"
proof -
  have n: "global_buffer initial_state = None"
    by (simp add: initial_state_def)
  from add_item_not_initialized [OF n] n show ?thesis
    by (intro conjI)
qed

section \<open>Counts per priority\<close>

lemma Priority_value_inj: "Priority_value p = Priority_value q \<Longrightarrow> p = q"
  by (cases p; cases q) simp_all

lemma in_Priority_value: "in_Priority (Priority_value p)"
  by (cases p) (simp_all add: in_Priority_def all_Priority_def)

lemma map_of_incr:
  "map_of (map (\<lambda>(k', c'). if k' = k then (k', c + 1) else (k', c')) d) p =
     (if p = k then (case map_of d k of None \<Rightarrow> None | Some c0 \<Rightarrow> Some (c + 1))
      else map_of d p)"
  by (induction d) (auto split: option.splits)

lemma dict_incr_map_of:
  assumes "dict_incr d k = Done d'"
  shows "map_of d' p = (if p = k then map_option (\<lambda>c. c + 1) (map_of d k) else map_of d p)"
proof -
  from assms obtain c where c: "map_of d k = Some c"
    and d': "d' = map (\<lambda>(k', c'). if k' = k then (k', c + 1) else (k', c')) d"
    by (auto simp: dict_incr_def split: option.splits)
  show ?thesis
    unfolding d' map_of_incr using c by simp
qed

lemma produce_counts:
  assumes "produce s item = Done s'" and "map_of (items_by_priority s) p = Some c"
  shows "map_of (items_by_priority s') p =
           Some (c + (if priority item = Priority_value p then 1 else 0))"
    and "total_produced s' = total_produced s + 1"
proof -
  from assms(1) obtain d where
    d: "(if in_Priority (priority item)
         then (case Priority_call (priority item) of
                 Blocked \<Rightarrow> Blocked
               | Raised e \<Rightarrow> Raised e
               | Done q \<Rightarrow> dict_incr (items_by_priority s) q)
         else Done (items_by_priority s)) = Done d"
    and s': "items_by_priority s' = d" "total_produced s' = total_produced s + 1"
    unfolding produce_unfold by (auto split: if_splits result.splits)
  show "total_produced s' = total_produced s + 1" by fact
  show "map_of (items_by_priority s') p =
           Some (c + (if priority item = Priority_value p then 1 else 0))"
  proof (cases "in_Priority (priority item)")
    case False
    then have "priority item \<noteq> Priority_value p"
      using in_Priority_value [of p] by auto
    with False d s' assms(2) show ?thesis by simp
  next
    case True
    then obtain q where q: "Priority_call (priority item) = Done q" "Priority_value q = priority item"
      using in_Priority_call by blast
    with True d have "dict_incr (items_by_priority s) q = Done d" by simp
    from dict_incr_map_of [OF this, of p] q(2) assms(2) s'(1) show ?thesis
      by (auto dest: Priority_value_inj)
  qed
qed

lemma consume_counts:
  assumes "consume s = Done (x, s')"
  shows "items_by_priority s' = items_by_priority s" and "total_produced s' = total_produced s"
  using assms unfolding consume_unfold by (auto split: if_splits result.splits)

lemma run_counts:
  assumes "run s ops = Done (t, outs)" and "map_of (items_by_priority s) p = Some c"
  shows "map_of (items_by_priority t) p =
           Some (c + int (length (filter (\<lambda>x. priority x = Priority_value p) (produced ops)))) \<and>
         total_produced t = total_produced s + int (length (produced ops))"
  using assms
proof (induction s ops arbitrary: outs c rule: run.induct)
  case (1 s)
  then show ?case by simp
next
  case (2 s item ops)
  from "2.prems"(1) obtain s' where p: "produce s item = Done s'" and r: "run s' ops = Done (t, outs)"
    by (auto split: result.splits)
  from produce_counts [OF p "2.prems"(2)] "2.IH" [OF p r] show ?case
    by simp
next
  case (3 s ops)
  from "3.prems"(1) obtain x s' outs' where c: "consume s = Done (x, s')"
    and r: "run s' ops = Done (t, outs')"
    by (auto split: result.splits)
  from consume_counts [OF c] "3.prems"(2) "3.IH" [OF c refl r] show ?case
    by simp
qed

lemma count_partition:
  "length (filter (\<lambda>x. priority x = Priority_value CRITICAL) xs) +
   length (filter (\<lambda>x. priority x = Priority_value HIGH) xs) +
   length (filter (\<lambda>x. priority x = Priority_value MEDIUM) xs) +
   length (filter (\<lambda>x. priority x = Priority_value LOW) xs) =
   length (filter (\<lambda>x. in_Priority (priority x)) xs)"
  by (induction xs) (auto simp: in_Priority_def all_Priority_def)

lemma dict_shape:
  assumes "map fst d = all_Priority"
  shows "\<exists>a b c e. d = [(CRITICAL, a), (HIGH, b), (MEDIUM, c), (LOW, e)]"
  using assms unfolding all_Priority_def
  by (auto simp: map_eq_Cons_conv)

lemma init_counts:
  "PriorityBuffer_init ms = Done s \<Longrightarrow> map_of (items_by_priority s) p = Some 0 \<and> total_produced s = 0"
  by (cases p) (auto simp: PriorityBuffer_init_def Semaphore_init_def all_Priority_def split: if_splits)

lemma stats_lookup:
  assumes "map fst (items_by_priority s) = all_Priority"
  shows "map_of (stat_items_by_priority (get_stats s)) (Priority_name p) = map_of (items_by_priority s) p"
proof -
  from dict_shape [OF assms] obtain a b c e where
    "items_by_priority s = [(CRITICAL, a), (HIGH, b), (MEDIUM, c), (LOW, e)]" by blast
  then show ?thesis
    by (cases p) (simp_all add: get_stats_def)
qed

lemma stats_sum:
  assumes "map fst (items_by_priority s) = all_Priority"
    and "\<And>p. map_of (items_by_priority s) p = Some (f p)"
  shows "sum_list (map snd (stat_items_by_priority (get_stats s))) =
           f CRITICAL + f HIGH + f MEDIUM + f LOW"
proof -
  from dict_shape [OF assms(1)] obtain a b c e where
    d: "items_by_priority s = [(CRITICAL, a), (HIGH, b), (MEDIUM, c), (LOW, e)]" by blast
  from assms(2) [of CRITICAL] assms(2) [of HIGH] assms(2) [of MEDIUM] assms(2) [of LOW]
  have "a = f CRITICAL" "b = f HIGH" "c = f MEDIUM" "e = f LOW"
    unfolding d by simp_all
  then show ?thesis
    by (simp add: get_stats_def d)
qed

text \<open>
  Claim C5. The items of the data model carry a priority of the enumeration, as every item
  built by \<^verbatim>\<open>Producer.run\<close> and by \<^verbatim>\<open>add_item\<close> does. After any sequence \<open>ops\<close>
  of completed calls on a fresh buffer that produces only such items, the counts that
  \<^verbatim>\<open>get_stats\<close> reports sum to \<open>total_produced\<close>; the count of a priority \<open>p\<close> is
  the number of produced items with priority \<open>p\<close>, so it grows by one exactly at each
  such \<^verbatim>\<open>produce\<close>; and after any further completed calls no count is smaller than
  before.
\<close>

theorem per_priority_counts:
  assumes "PriorityBuffer_init ms = Done s0"
    and "run s0 ops = Done (s, outs)"
    and "run s ops2 = Done (s2, outs2)"
    and "list_all (\<lambda>x. in_Priority (priority x)) (produced ops)"
  shows "sum_list (map snd (stat_items_by_priority (get_stats s))) =
           stat_total_produced (get_stats s) \<and>
         stat_total_produced (get_stats s) = int (length (produced ops)) \<and>
         map_of (stat_items_by_priority (get_stats s)) (Priority_name p) =
           Some (int (length (filter (\<lambda>x. priority x = Priority_value p) (produced ops)))) \<and>
         (\<exists>c c2. map_of (stat_items_by_priority (get_stats s)) (Priority_name p) = Some c \<and>
                 map_of (stat_items_by_priority (get_stats s2)) (Priority_name p) = Some c2 \<and>
                 c \<le> c2)"
proof -
  let ?n = "\<lambda>q xs. int (length (filter (\<lambda>x. priority x = Priority_value q) xs))"
  have inv0: "buffer_inv s0" by (rule init_buffer_inv [OF assms(1)])
  have inv: "buffer_inv s" by (rule run_buffer_inv [OF inv0 assms(2)])
  have inv2: "buffer_inv s2" by (rule run_buffer_inv [OF inv assms(3)])
  have k: "map fst (items_by_priority s) = all_Priority"
    using inv by (simp add: buffer_inv_def)
  have k2: "map fst (items_by_priority s2) = all_Priority"
    using inv2 by (simp add: buffer_inv_def)
  have c: "map_of (items_by_priority s) q = Some (?n q (produced ops))" for q
    using run_counts [OF assms(2), of q 0] init_counts [OF assms(1), of q] by simp
  have t: "total_produced s = int (length (produced ops))"
    using run_counts [OF assms(2), of p 0] init_counts [OF assms(1), of p] by simp
  have c2: "map_of (items_by_priority s2) p = Some (?n p (produced ops) + ?n p (produced ops2))"
    using run_counts [OF assms(3) c [of p]] by simp
  have sum: "sum_list (map snd (stat_items_by_priority (get_stats s))) =
           int (length (filter (\<lambda>x. in_Priority (priority x)) (produced ops)))"
    unfolding stats_sum [OF k c, simplified] count_partition [of "produced ops", symmetric]
    by simp
  from assms(4) have "filter (\<lambda>x. in_Priority (priority x)) (produced ops) = produced ops"
    by (simp add: list_all_iff)
  with sum t have all: "sum_list (map snd (stat_items_by_priority (get_stats s))) =
              stat_total_produced (get_stats s)"
    by (simp add: get_stats_def)
  have mono: "\<exists>c c2. map_of (stat_items_by_priority (get_stats s)) (Priority_name p) = Some c \<and>
                 map_of (stat_items_by_priority (get_stats s2)) (Priority_name p) = Some c2 \<and>
                 c \<le> c2"
    unfolding stats_lookup [OF k] stats_lookup [OF k2] c c2 by simp
  from c [of p] t all mono show ?thesis
    unfolding stats_lookup [OF k] by (simp add: get_stats_def)
qed

theorem per_priority_counts_witness:
  "PriorityBuffer_init 10 =
     Done \<lparr>max_size = 10, buffer = \<lparr>maxsize = 10, queue = []\<rparr>, empty_slots = 10,
           filled_slots = 0, total_produced = 0, total_consumed = 0,
           items_by_priority = [(CRITICAL, 0), (HIGH, 0), (MEDIUM, 0), (LOW, 0)]\<rparr> \<and>
   run \<lparr>max_size = 10, buffer = \<lparr>maxsize = 10, queue = []\<rparr>, empty_slots = 10,
        filled_slots = 0, total_produced = 0, total_consumed = 0,
        items_by_priority = [(CRITICAL, 0), (HIGH, 0), (MEDIUM, 0), (LOW, 0)]\<rparr>
       [Produce item_a, Produce item_b, Consume] =
     Done (\<lparr>max_size = 10, buffer = \<lparr>maxsize = 10, queue = [item_a]\<rparr>, empty_slots = 9,
            filled_slots = 1, total_produced = 2, total_consumed = 1,
            items_by_priority = [(CRITICAL, 0), (HIGH, 2), (MEDIUM, 0), (LOW, 0)]\<rparr>, [item_b]) \<and>
   run \<lparr>max_size = 10, buffer = \<lparr>maxsize = 10, queue = [item_a]\<rparr>, empty_slots = 9,
        filled_slots = 1, total_produced = 2, total_consumed = 1,
        items_by_priority = [(CRITICAL, 0), (HIGH, 2), (MEDIUM, 0), (LOW, 0)]\<rparr>
       [Consume] =
     Done (\<lparr>max_size = 10, buffer = \<lparr>maxsize = 10, queue = []\<rparr>, empty_slots = 10,
            filled_slots = 0, total_produced = 2, total_consumed = 2,
            items_by_priority = [(CRITICAL, 0), (HIGH, 2), (MEDIUM, 0), (LOW, 0)]\<rparr>, [item_a]) \<and>
   list_all (\<lambda>x. in_Priority (priority x)) (produced [Produce item_a, Produce item_b, Consume]) \<and>
   sum_list (map snd (stat_items_by_priority (get_stats
     \<lparr>max_size = 10, buffer = \<lparr>maxsize = 10, queue = [item_a]\<rparr>, empty_slots = 9,
      filled_slots = 1, total_produced = 2, total_consumed = 1,
      items_by_priority = [(CRITICAL, 0), (HIGH, 2), (MEDIUM, 0), (LOW, 0)]\<rparr>))) =
   stat_total_produced (get_stats
     \<lparr>max_size = 10, buffer = \<lparr>maxsize = 10, queue = [item_a]\<rparr>, empty_slots = 9,
      filled_slots = 1, total_produced = 2, total_consumed = 1,
      items_by_priority = [(CRITICAL, 0), (HIGH, 2), (MEDIUM, 0), (LOW, 0)]\<rparr>)"
proof -
  let ?start = "\<lparr>max_size = 10, buffer = \<lparr>maxsize = 10, queue = []\<rparr>, empty_slots = 10,
           filled_slots = 0, total_produced = 0, total_consumed = 0,
           items_by_priority = [(CRITICAL, 0), (HIGH, 0), (MEDIUM, 0), (LOW, 0)]\<rparr>"
  let ?mid = "\<lparr>max_size = 10, buffer = \<lparr>maxsize = 10, queue = [item_a]\<rparr>, empty_slots = 9,
            filled_slots = 1, total_produced = 2, total_consumed = 1,
            items_by_priority = [(CRITICAL, 0), (HIGH, 2), (MEDIUM, 0), (LOW, 0)]\<rparr>"
  let ?final = "\<lparr>max_size = 10, buffer = \<lparr>maxsize = 10, queue = []\<rparr>, empty_slots = 10,
            filled_slots = 0, total_produced = 2, total_consumed = 2,
            items_by_priority = [(CRITICAL, 0), (HIGH, 2), (MEDIUM, 0), (LOW, 0)]\<rparr>"
  have i: "PriorityBuffer_init 10 = Done ?start"
    by code_simp
  have r: "run ?start [Produce item_a, Produce item_b, Consume] = Done (?mid, [item_b])"
    by code_simp
  have r2: "run ?mid [Consume] = Done (?final, [item_a])"
    by code_simp
  have a: "list_all (\<lambda>x. in_Priority (priority x)) (produced [Produce item_a, Produce item_b, Consume])"
    by code_simp
  have e: "sum_list (map snd (stat_items_by_priority (get_stats ?mid))) =
          stat_total_produced (get_stats ?mid)"
    using per_priority_counts [OF i r r2 a, of HIGH] by (elim conjE)
  from i r r2 a e show ?thesis
    by (intro conjI)
qed

section \<open>The heap order of the queue\<close>

lemma item_lt_irrefl: "\<not> item_lt a a"
  by (simp add: item_lt_def)

lemma item_le_trans: "\<not> item_lt b a \<Longrightarrow> \<not> item_lt c b \<Longrightarrow> \<not> item_lt c a"
  unfolding item_lt_def not_less by (rule order_trans)

lemma item_lt_le_trans: "item_lt a b \<Longrightarrow> \<not> item_lt c b \<Longrightarrow> \<not> item_lt c a"
  unfolding item_lt_def not_less by (rule order_trans [OF less_imp_le])

lemma item_lt_asym: "item_lt a b \<Longrightarrow> \<not> item_lt b a"
  unfolding item_lt_def by (rule less_not_sym)

lemma item_lt_lex:
  "item_lt a b \<longleftrightarrow>
     priority a < priority b \<or>
     (priority a = priority b \<and>
       (item_id a < item_id b \<or>
        (item_id a = item_id b \<and>
          (data a < data b \<or> (data a = data b \<and> timestamp a < timestamp b)))))"
  unfolding item_lt_def item_key_def by (auto simp: less_prod_def')

lemma parent_less: "0 < i \<Longrightarrow> (i - 1) div 2 < i"
  for i :: nat
  by arith

lemma parent_eq_iff: "0 < i \<Longrightarrow> (i - 1) div 2 = p \<longleftrightarrow> i = 2 * p + 1 \<or> i = 2 * p + 2"
  for i p :: nat
  by arith

lemma heap_root_min:
  assumes "is_heap h" and "i < length h"
  shows "\<not> item_lt (h ! i) (h ! 0)"
  using assms(2)
proof (induction i rule: less_induct)
  case (less i)
  show ?case
  proof (cases "i = 0")
    case True
    then show ?thesis by (simp add: item_lt_irrefl)
  next
    case False
    then have p: "(i - 1) div 2 < i" by (simp add: parent_less)
    with less.prems have "(i - 1) div 2 < length h" by simp
    from less.IH [OF p this] have a: "\<not> item_lt (h ! ((i - 1) div 2)) (h ! 0)" .
    from assms(1) False less.prems have b: "\<not> item_lt (h ! i) (h ! ((i - 1) div 2))"
      by (simp add: is_heap_def)
    from item_le_trans [OF a b] show ?thesis .
  qed
qed

lemma heap_except_up_root: "heap_except_up h 0 \<Longrightarrow> is_heap h"
  by (simp add: heap_except_up_def is_heap_def)

lemma heap_except_up_step:
  assumes pos: "0 < pos" "pos < length heap"
    and inv: "heap_except_up (heap[pos := x]) pos"
    and lt: "item_lt x (heap ! ((pos - 1) div 2))"
  shows "heap_except_up ((heap[pos := heap ! ((pos - 1) div 2)])[(pos - 1) div 2 := x])
           ((pos - 1) div 2)"
proof -
  define P where "P = (pos - 1) div 2"
  define h where "h = heap[pos := x]"
  define h2 where "h2 = (heap[pos := heap ! P])[P := x]"
  have P: "P < pos" using pos(1) by (simp add: P_def parent_less)
  have Peq: "(pos - Suc 0) div 2 = P" by (simp add: P_def)
  have lt': "item_lt x (heap ! P)" using lt by (simp add: P_def)
  have len: "length h = length heap" "length h2 = length heap"
    by (simp_all add: h_def h2_def)
  have h: "h ! pos = x" "\<And>j. j \<noteq> pos \<Longrightarrow> h ! j = heap ! j"
    using pos(2) by (simp_all add: h_def)
  have h2: "h2 ! pos = heap ! P" "h2 ! P = x"
    "\<And>j. j \<noteq> pos \<Longrightarrow> j \<noteq> P \<Longrightarrow> h2 ! j = heap ! j"
    using pos(2) P by (simp_all add: h2_def)
  have c1: "\<not> item_lt (h ! i) (h ! ((i - 1) div 2))"
    if "1 \<le> i" "i < length heap" "i \<noteq> pos" for i
    using inv that by (simp add: heap_except_up_def h_def)
  have c2: "\<not> item_lt (h ! i) (h ! P)"
    if "1 \<le> i" "i < length heap" "(i - 1) div 2 = pos" for i
    using inv that pos(1) by (simp add: heap_except_up_def h_def P_def)
  have g1: "\<not> item_lt (h2 ! i) (h2 ! ((i - 1) div 2))"
    if i: "1 \<le> i" "i < length heap" "i \<noteq> P" for i
  proof -
    consider "i = pos" | "i \<noteq> pos" "(i - 1) div 2 = pos"
      | "i \<noteq> pos" "(i - 1) div 2 = P" | "i \<noteq> pos" "(i - 1) div 2 \<noteq> pos" "(i - 1) div 2 \<noteq> P"
      by blast
    then show ?thesis
    proof cases
      case 1
      with h2 lt' show ?thesis
        by (simp add: Peq item_lt_asym)
    next
      case 2
      with c2 [OF i(1,2)] i(3) h(2) [of i] h(2) [of P] h2 P show ?thesis
        by simp
    next
      case 3
      from c1 [OF i(1,2) 3(1)] 3 h(2) [of i] h(2) [of P] P
      have "\<not> item_lt (heap ! i) (heap ! P)" by simp
      from item_lt_le_trans [OF lt' this] 3 h2 i(3) show ?thesis
        by simp
    next
      case 4
      with c1 [OF i(1,2)] h(2) h2(3) i(3) show ?thesis
        by simp
    qed
  qed
  have g2: "\<not> item_lt (h2 ! i) (h2 ! ((P - 1) div 2))"
    if i: "1 \<le> i" "i < length heap" "(i - 1) div 2 = P" "0 < P" for i
  proof -
    have PP: "(P - 1) div 2 < P" using i(4) by (simp add: parent_less)
    with P have e: "h2 ! ((P - 1) div 2) = h ! ((P - 1) div 2)"
      using h(2) [of "(P - 1) div 2"] h2(3) [of "(P - 1) div 2"] by simp
    have Plen: "P < length heap" using P pos(2) by simp
    have a: "\<not> item_lt (h ! P) (h ! ((P - 1) div 2))"
      using c1 [of P] i(4) Plen P by simp
    show ?thesis
    proof (cases "i = pos")
      case True
      with a h2(1) h(2) [of P] P e show ?thesis by simp
    next
      case False
      have iP: "i \<noteq> P" using i(1,3) parent_less [of i] by auto
      from c1 [OF i(1,2) False] i(3) have "\<not> item_lt (h ! i) (h ! P)" by simp
      from item_le_trans [OF a this] False iP h(2) [of i] h2(3) [of i] e show ?thesis
        by simp
    qed
  qed
  from g1 g2 show ?thesis
    unfolding heap_except_up_def P_def [symmetric] h2_def [symmetric]
    by (simp add: len)
qed

lemma heap_except_up_stop:
  assumes pos: "0 < pos" "pos < length heap"
    and inv: "heap_except_up (heap[pos := x]) pos"
    and nlt: "\<not> item_lt x (heap ! ((pos - 1) div 2))"
  shows "is_heap (heap[pos := x])"
proof -
  have "\<not> item_lt ((heap[pos := x]) ! i) ((heap[pos := x]) ! ((i - 1) div 2))"
    if i: "1 \<le> i" "i < length heap" for i
  proof (cases "i = pos")
    case True
    have "(pos - 1) div 2 \<noteq> pos" using parent_less [OF pos(1)] by simp
    with True nlt pos show ?thesis by simp
  next
    case False
    with inv i show ?thesis by (simp add: heap_except_up_def)
  qed
  then show ?thesis by (simp add: is_heap_def)
qed

lemma mset_move:
  assumes "a < length heap" and "b < length heap" and "a \<noteq> b"
  shows "mset ((heap[a := heap ! b])[b := x]) = mset (heap[a := x])"
proof -
  let ?h = "heap[a := x]"
  have "mset (?h[b := ?h ! a, a := ?h ! b]) = mset ?h"
    using assms by (intro mset_swap) simp_all
  moreover have "?h[b := ?h ! a, a := ?h ! b] = (heap[a := heap ! b])[b := x]"
    using assms by (intro nth_equalityI) (auto simp: nth_list_update)
  ultimately show ?thesis by simp
qed

lemma siftdown_loop_correct:
  assumes "siftdown_loop heap 0 x pos = (h', p')"
    and "pos < length heap"
    and "heap_except_up (heap[pos := x]) pos"
  shows "is_heap (h'[p' := x]) \<and> mset (h'[p' := x]) = mset (heap[pos := x])"
  using assms
proof (induction heap "0::nat" x pos arbitrary: h' p' rule: siftdown_loop.induct)
  case (1 heap newitem pos)
  show ?case
  proof (cases "0 < pos")
    case False
    with "1.prems" have "h' = heap" "p' = pos" "pos = 0"
      by (simp_all add: siftdown_loop.simps [of heap 0 newitem pos])
    with "1.prems"(3) heap_except_up_root show ?thesis by simp
  next
    case pos: True
    let ?P = "(pos - 1) div 2"
    show ?thesis
    proof (cases "item_lt newitem (heap ! ?P)")
      case False
      with pos "1.prems" have "h' = heap" "p' = pos"
        by (simp_all add: siftdown_loop.simps [of heap 0 newitem pos])
      with heap_except_up_stop [OF pos "1.prems"(2,3) False] show ?thesis by simp
    next
      case True
      with pos "1.prems"(1) have r: "siftdown_loop (heap[pos := heap ! ?P]) 0 newitem ?P = (h', p')"
        by (simp add: siftdown_loop.simps [of heap 0 newitem pos])
      have P: "?P < pos" using pos by (simp add: parent_less)
      with "1.prems"(2) have l: "?P < length (heap[pos := heap ! ?P])" by simp
      from "1.hyps" [OF pos True r l heap_except_up_step [OF pos "1.prems"(2,3) True]]
        mset_move [of pos heap ?P newitem] "1.prems"(2) P
      show ?thesis by simp
    qed
  qed
qed

lemma heap_except_down_step:
  assumes c: "c = 2 * pos + 1 \<or> c = 2 * pos + 2" "c < length heap"
    and sib: "\<And>i. i < length heap \<Longrightarrow> i = 2 * pos + 1 \<or> i = 2 * pos + 2 \<Longrightarrow> i \<noteq> c \<Longrightarrow>
               \<not> item_lt (heap ! i) (heap ! c)"
    and inv: "heap_except_down heap pos"
  shows "heap_except_down (heap[pos := heap ! c]) c"
proof -
  define h1 where "h1 = heap[pos := heap ! c]"
  have pc: "pos < c" "(c - 1) div 2 = pos" "0 < c" using c(1) by auto
  have h1: "h1 ! pos = heap ! c" "\<And>j. j \<noteq> pos \<Longrightarrow> h1 ! j = heap ! j"
    using pc(1) c(2) by (simp_all add: h1_def)
  have c1: "\<not> item_lt (heap ! i) (heap ! ((i - 1) div 2))"
    if "1 \<le> i" "i < length heap" "i \<noteq> pos" "(i - 1) div 2 \<noteq> pos" for i
    using inv that by (simp add: heap_except_down_def)
  have c2: "\<not> item_lt (heap ! i) (heap ! ((pos - 1) div 2))"
    if "1 \<le> i" "i < length heap" "(i - 1) div 2 = pos" "0 < pos" for i
    using inv that by (simp add: heap_except_down_def)
  have g1: "\<not> item_lt (h1 ! i) (h1 ! ((i - 1) div 2))"
    if i: "1 \<le> i" "i < length heap" "i \<noteq> c" "(i - 1) div 2 \<noteq> c" for i
  proof -
    consider "i = pos" | "i \<noteq> pos" "(i - 1) div 2 = pos" | "i \<noteq> pos" "(i - 1) div 2 \<noteq> pos"
      by blast
    then show ?thesis
    proof cases
      case 1
      then have "0 < pos" using i(1) by simp
      then have "(pos - 1) div 2 \<noteq> pos" using parent_less [of pos] by simp
      with c2 [of c] pc c(2) \<open>0 < pos\<close> 1 h1 show ?thesis by simp
    next
      case 2
      then have "i = 2 * pos + 1 \<or> i = 2 * pos + 2"
        using i(1) parent_eq_iff [of i pos] by simp
      from sib [OF i(2) this i(3)] 2 h1 show ?thesis by simp
    next
      case 3
      with c1 [OF i(1,2)] h1(2) show ?thesis by simp
    qed
  qed
  have g2: "\<not> item_lt (h1 ! i) (h1 ! ((c - 1) div 2))"
    if i: "1 \<le> i" "i < length heap" "(i - 1) div 2 = c" for i
  proof -
    have "c < i" using i(1,3) parent_less [of i] by simp
    with pc have "i \<noteq> pos" "(i - 1) div 2 \<noteq> pos" using i(3) by simp_all
    with c1 [OF i(1,2)] i(3) pc(2) h1 show ?thesis by simp
  qed
  from g1 g2 show ?thesis
    unfolding heap_except_down_def h1_def [symmetric] by (simp add: h1_def)
qed

lemma heap_except_down_leaf:
  assumes "\<not> 2 * pos + 1 < length heap" and "pos < length heap"
    and inv: "heap_except_down heap pos"
  shows "heap_except_up (heap[pos := x]) pos"
proof -
  have np: "(i - 1) div 2 \<noteq> pos" if "1 \<le> i" "i < length heap" for i
    using that assms(1) parent_eq_iff [of i pos] by auto
  have "\<not> item_lt ((heap[pos := x]) ! i) ((heap[pos := x]) ! ((i - 1) div 2))"
    if i: "1 \<le> i" "i < length heap" "i \<noteq> pos" for i
    using inv i np [OF i(1,2)] by (simp add: heap_except_down_def)
  with np show ?thesis
    by (simp add: heap_except_up_def)
qed

lemma siftup_loop_correct:
  assumes "siftup_loop heap endpos pos = (h', p')"
    and "endpos = length heap"
    and "pos < length heap"
    and "heap_except_down heap pos"
  shows "p' < length heap \<and> length h' = length heap \<and> heap_except_up (h'[p' := x]) p' \<and>
         mset (h'[p' := x]) = mset (heap[pos := x])"
  using assms
proof (induction heap endpos pos arbitrary: h' p' rule: siftup_loop.induct)
  case (1 heap endpos pos)
  let ?l = "2 * pos + 1"
  let ?r = "2 * pos + 1 + 1"
  show ?case
  proof (cases "?l < endpos")
    case False
    with "1.prems"(1) have e: "h' = heap" "p' = pos"
      by (simp_all add: siftup_loop.simps [of heap endpos pos])
    from False "1.prems"(2) have "\<not> 2 * pos + 1 < length heap" by simp
    from heap_except_down_leaf [OF this "1.prems"(3,4)] e "1.prems"(3) show ?thesis
      by simp
  next
    case l: True
    show ?thesis
    proof (cases "?r < endpos \<and> \<not> item_lt (heap ! ?l) (heap ! ?r)")
      case True
      have "siftup_loop heap endpos pos = siftup_loop (heap[pos := heap ! ?r]) endpos ?r"
        by (subst siftup_loop.simps) (simp only: l True if_True simp_thms)
      with "1.prems"(1) have r: "siftup_loop (heap[pos := heap ! ?r]) endpos ?r = (h', p')"
        by simp
      have d: "heap_except_down (heap[pos := heap ! ?r]) ?r"
      proof (rule heap_except_down_step [OF _ _ _ "1.prems"(4)])
        show "?r = 2 * pos + 1 \<or> ?r = 2 * pos + 2" by simp
        show "?r < length heap" using True "1.prems"(2) by simp
        fix i assume "i < length heap" "i = 2 * pos + 1 \<or> i = 2 * pos + 2" "i \<noteq> ?r"
        then have "i = ?l" by auto
        with True show "\<not> item_lt (heap ! i) (heap ! ?r)" by simp
      qed
      have len: "endpos = length (heap[pos := heap ! ?r])" "?r < length (heap[pos := heap ! ?r])"
        using True "1.prems"(2) by simp_all
      from "1.IH"(1) [OF l True r len d]
        mset_move [of pos heap ?r x] "1.prems"(2,3) True
      show ?thesis by simp
    next
      case False
      have "siftup_loop heap endpos pos = siftup_loop (heap[pos := heap ! ?l]) endpos ?l"
        by (subst siftup_loop.simps) (simp only: l False if_True if_False)
      with "1.prems"(1) have r: "siftup_loop (heap[pos := heap ! ?l]) endpos ?l = (h', p')"
        by simp
      have d: "heap_except_down (heap[pos := heap ! ?l]) ?l"
      proof (rule heap_except_down_step [OF _ _ _ "1.prems"(4)])
        show "?l = 2 * pos + 1 \<or> ?l = 2 * pos + 2" by simp
        show "?l < length heap" using l "1.prems"(2) by simp
        fix i assume i: "i < length heap" "i = 2 * pos + 1 \<or> i = 2 * pos + 2" "i \<noteq> ?l"
        then have "i = ?r" by auto
        with i(1) False "1.prems"(2) have "item_lt (heap ! ?l) (heap ! ?r)" by simp
        from item_lt_asym [OF this] \<open>i = ?r\<close> show "\<not> item_lt (heap ! i) (heap ! ?l)" by simp
      qed
      have len: "endpos = length (heap[pos := heap ! ?l])" "?l < length (heap[pos := heap ! ?l])"
        using l "1.prems"(2) by simp_all
      from "1.IH"(2) [OF l False r len d]
        mset_move [of pos heap ?l x] "1.prems"(2,3) l
      show ?thesis by simp
    qed
  qed
qed

lemma is_heap_butlast: "is_heap h \<Longrightarrow> is_heap (butlast h)"
proof -
  assume a: "is_heap h"
  have "\<not> item_lt (butlast h ! i) (butlast h ! ((i - 1) div 2))"
    if i: "1 \<le> i" "i < length h - 1" for i
  proof -
    have "(i - 1) div 2 < i" using i(1) by (simp add: parent_less)
    with i(2) have "(i - 1) div 2 < length (butlast h)" "i < length (butlast h)" by simp_all
    then have "butlast h ! i = h ! i" "butlast h ! ((i - 1) div 2) = h ! ((i - 1) div 2)"
      by (simp_all add: nth_butlast)
    with a i show ?thesis by (simp add: is_heap_def)
  qed
  then show ?thesis by (simp add: is_heap_def)
qed

lemma heappush_correct:
  assumes "is_heap h"
  shows "is_heap (heappush h x) \<and> mset (heappush h x) = add_mset x (mset h)"
proof -
  let ?g = "h @ [x]"
  obtain h' p' where r: "siftdown_loop ?g 0 x (length h) = (h', p')"
    by (cases "siftdown_loop ?g 0 x (length h)")
  have "\<not> item_lt (?g ! i) (?g ! ((i - 1) div 2))"
    if i: "1 \<le> i" "i < length h" for i
  proof -
    have "(i - 1) div 2 < i" using i(1) by (simp add: parent_less)
    with i(2) have "?g ! i = h ! i" "?g ! ((i - 1) div 2) = h ! ((i - 1) div 2)"
      by (simp_all add: nth_append)
    with assms i show ?thesis by (simp add: is_heap_def)
  qed
  moreover have "(i - 1) div 2 \<noteq> length h" if "1 \<le> i" "i < Suc (length h)" for i
    using that parent_less [of i] by simp
  ultimately have "heap_except_up ?g (length h)"
    by (auto simp: heap_except_up_def less_Suc_eq)
  then have "heap_except_up (?g[length h := x]) (length h)" by simp
  from siftdown_loop_correct [OF r _ this]
  have "is_heap (h'[p' := x]) \<and> mset (h'[p' := x]) = add_mset x (mset h)" by simp
  then show ?thesis
    by (simp add: heappush_def siftdown_def r)
qed

lemma heappop_correct:
  assumes "is_heap h" and "h \<noteq> []"
  shows "\<exists>x h'. heappop h = Done (x, h') \<and> is_heap h' \<and> mset h = add_mset x (mset h') \<and>
           (\<forall>y \<in> set h. \<not> item_lt y x)"
proof -
  have min: "\<forall>y \<in> set h. \<not> item_lt y (h ! 0)"
    using heap_root_min [OF assms(1)] by (auto simp: in_set_conv_nth)
  have split: "h = butlast h @ [last h]" using assms(2) by simp
  show ?thesis
  proof (cases "butlast h = []")
    case True
    with split have h: "h = [last h]" by simp
    then have "h ! 0 = last h" by (metis nth_Cons_0)
    moreover have "mset h = {#last h#}" by (subst h) simp
    ultimately show ?thesis
      using min assms(2) True by (simp add: heappop_def Let_def is_heap_def)
  next
    case False
    let ?g = "(butlast h)[0 := last h]"
    have len: "0 < length (butlast h)" using False by (simp only: length_greater_0_conv not_False_eq_True)
    have root: "butlast h ! 0 = h ! 0" using len by (simp add: nth_butlast)
    obtain h1 p1 where r1: "siftup_loop ?g (length ?g) 0 = (h1, p1)"
      by (cases "siftup_loop ?g (length ?g) 0")
    obtain h2 p2 where r2: "siftdown_loop (h1[p1 := last h]) 0 (last h) p1 = (h2, p2)"
      by (cases "siftdown_loop (h1[p1 := last h]) 0 (last h) p1")
    have "heap_except_down ?g 0"
      using is_heap_butlast [OF assms(1)] by (simp add: heap_except_down_def is_heap_def)
    from siftup_loop_correct [OF r1 refl _ this, of "last h"] len
    have s1: "p1 < length ?g" "length h1 = length ?g" "heap_except_up (h1[p1 := last h]) p1"
      "mset (h1[p1 := last h]) = mset ?g"
      by simp_all
    from s1(1,2) have "p1 < length (h1[p1 := last h])" by simp
    moreover from s1(3) have "heap_except_up ((h1[p1 := last h])[p1 := last h]) p1" by simp
    ultimately have s2: "is_heap (h2[p2 := last h])" "mset (h2[p2 := last h]) = mset ?g"
      using siftdown_loop_correct [OF r2] s1(4) by simp_all
    have g0: "?g ! 0 = last h" using len by simp
    have up: "siftup ?g 0 = h2[p2 := last h]"
      using s1(1,2) by (simp add: siftup_def Let_def r1 siftdown_def r2 g0 del: length_list_update)
    have "mset ?g = add_mset (last h) (mset (butlast h) - {#butlast h ! 0#})"
      using len by (simp add: mset_update)
    moreover have "butlast h ! 0 \<in># mset (butlast h)" using len by simp
    moreover have "mset h = add_mset (last h) (mset (butlast h))"
      by (subst split) simp
    ultimately have m: "mset h = add_mset (h ! 0) (mset ?g)"
      using root by simp
    have "heappop h = Done (h ! 0, h2[p2 := last h])"
      using assms(2) False by (simp add: heappop_def Let_def up root)
    with s2 m min show ?thesis by simp
  qed
qed

lemma init_heap: "PriorityBuffer_init ms = Done s \<Longrightarrow> is_heap (queue (buffer s))"
  by (auto simp: PriorityBuffer_init_def Semaphore_init_def PriorityQueue_init_def is_heap_def
      split: if_splits)

lemma produce_heap:
  assumes "is_heap (queue (buffer s))" and "produce s item = Done s'"
  shows "is_heap (queue (buffer s')) \<and>
         mset (queue (buffer s')) = add_mset item (mset (queue (buffer s)))"
proof -
  from assms(2) have "queue (buffer s') = heappush (queue (buffer s)) item"
    unfolding produce_unfold by (auto split: if_splits result.splits)
  with heappush_correct [OF assms(1), of item] show ?thesis by simp
qed

lemma consume_heap:
  assumes "is_heap (queue (buffer s))" and "consume s = Done (x, s')"
  shows "is_heap (queue (buffer s')) \<and>
         mset (queue (buffer s)) = add_mset x (mset (queue (buffer s'))) \<and>
         (\<forall>y \<in> set (queue (buffer s)). \<not> item_lt y x)"
proof -
  from assms(2) have ne: "queue (buffer s) \<noteq> []"
    and p: "heappop (queue (buffer s)) = Done (x, queue (buffer s'))"
    unfolding consume_unfold by (auto simp: qsize_def split: if_splits result.splits)
  from heappop_correct [OF assms(1) ne] p show ?thesis by simp
qed

lemma run_order:
  assumes "run s ops = Done (t, outs)"
    and "is_heap (queue (buffer s))"
    and "A \<in> set (queue (buffer s))"
    and "item_lt A B"
  shows "B \<in> set outs \<longrightarrow> A \<in> set (takeWhile (\<lambda>x. x \<noteq> B) outs)"
  using assms(1-3)
proof (induction s ops arbitrary: outs rule: run.induct)
  case (1 s)
  then show ?case by simp
next
  case (2 s item ops)
  from "2.prems"(1) obtain s' where p: "produce s item = Done s'" and r: "run s' ops = Done (t, outs)"
    by (auto split: result.splits)
  from produce_heap [OF "2.prems"(2) p] "2.prems"(3)
  have "is_heap (queue (buffer s'))" "A \<in># mset (queue (buffer s'))" by simp_all
  with "2.IH" [OF p r] show ?case by simp
next
  case (3 s ops)
  from "3.prems"(1) obtain x s' outs' where c: "consume s = Done (x, s')"
    and r: "run s' ops = Done (t, outs')" and o: "outs = x # outs'"
    by (auto split: result.splits)
  from consume_heap [OF "3.prems"(2) c]
  have h: "is_heap (queue (buffer s'))"
    and m: "mset (queue (buffer s)) = add_mset x (mset (queue (buffer s')))"
    and le: "\<forall>y \<in> set (queue (buffer s)). \<not> item_lt y x"
    by simp_all
  from le "3.prems"(3) have "\<not> item_lt A x" by blast
  with assms(4) have xB: "x \<noteq> B" by blast
  from assms(4) have AB: "A \<noteq> B" using item_lt_irrefl by blast
  show ?case
  proof (cases "x = A")
    case True
    with o AB show ?thesis by simp
  next
    case False
    from "3.prems"(3) have "A \<in># mset (queue (buffer s))" by simp
    with m False have "A \<in> set (queue (buffer s'))" by simp
    from "3.IH" [OF c refl r h this] o xB show ?thesis by simp
  qed
qed

lemma run_heap:
  assumes "run s ops = Done (t, outs)" and "is_heap (queue (buffer s))"
  shows "is_heap (queue (buffer t))"
  using assms
proof (induction s ops arbitrary: outs rule: run.induct)
  case (1 s)
  then show ?case by simp
next
  case (2 s item ops)
  from "2.prems"(1) obtain s' where p: "produce s item = Done s'" and r: "run s' ops = Done (t, outs)"
    by (auto split: result.splits)
  from produce_heap [OF "2.prems"(2) p] "2.IH" [OF p r] show ?case by simp
next
  case (3 s ops)
  from "3.prems"(1) obtain x s' outs' where c: "consume s = Done (x, s')"
    and r: "run s' ops = Done (t, outs')"
    by (auto split: result.splits)
  from consume_heap [OF "3.prems"(2) c] "3.IH" [OF c refl r] show ?case by simp
qed

text \<open>
  Claim C1, amended. The order that places items in the queue compares, in this order,
  \<open>priority\<close>, \<open>item_id\<close>, \<open>data\<close> and \<open>timestamp\<close>, each ascending: the creation
  time is the last key, not the second. Whenever an item \<open>A\<close> is in the buffer (after
  any completed calls on a fresh buffer) and \<open>A\<close> comes before \<open>B\<close> in that order, in
  particular when both have the same priority and \<open>A\<close> has the smaller id, the
  following \<^verbatim>\<open>consume\<close> calls return \<open>A\<close> before they return \<open>B\<close>: if \<open>B\<close> is
  among the returned items, \<open>A\<close> occurs before the first \<open>B\<close>.
\<close>

theorem consume_follows_item_order:
  assumes "PriorityBuffer_init ms = Done s0"
    and "run s0 ops = Done (s, outs)"
    and "A \<in> set (queue (buffer s))"
    and "priority A < priority B \<or>
         (priority A = priority B \<and>
           (item_id A < item_id B \<or>
            (item_id A = item_id B \<and>
              (data A < data B \<or> (data A = data B \<and> timestamp A < timestamp B)))))"
    and "run s ops2 = Done (s2, outs2)"
  shows "B \<in> set outs2 \<longrightarrow> A \<in> set (takeWhile (\<lambda>x. x \<noteq> B) outs2)"
proof -
  from assms(4) have "item_lt A B" by (simp add: item_lt_lex)
  from run_order [OF assms(5) run_heap [OF assms(2) init_heap [OF assms(1)]] assms(3) this]
  show ?thesis .
qed

text \<open>
  Claim C1, as stated, fails: \<open>item_a\<close> is produced first and has the earlier timestamp,
  \<open>item_b\<close> has the same priority and is produced second, and \<^verbatim>\<open>consume\<close> returns
  \<open>item_b\<close> first, because its id \<open>-1\<close> is smaller.
\<close>

theorem equal_priority_not_fifo:
  "PriorityBuffer_init 10 =
     Done \<lparr>max_size = 10, buffer = \<lparr>maxsize = 10, queue = []\<rparr>, empty_slots = 10,
           filled_slots = 0, total_produced = 0, total_consumed = 0,
           items_by_priority = [(CRITICAL, 0), (HIGH, 0), (MEDIUM, 0), (LOW, 0)]\<rparr> \<and>
   priority item_a = priority item_b \<and> timestamp item_a \<le> timestamp item_b \<and>
   run \<lparr>max_size = 10, buffer = \<lparr>maxsize = 10, queue = []\<rparr>, empty_slots = 10,
        filled_slots = 0, total_produced = 0, total_consumed = 0,
        items_by_priority = [(CRITICAL, 0), (HIGH, 0), (MEDIUM, 0), (LOW, 0)]\<rparr>
       [Produce item_a, Produce item_b, Consume, Consume] =
     Done (\<lparr>max_size = 10, buffer = \<lparr>maxsize = 10, queue = []\<rparr>, empty_slots = 10,
            filled_slots = 0, total_produced = 2, total_consumed = 2,
            items_by_priority = [(CRITICAL, 0), (HIGH, 2), (MEDIUM, 0), (LOW, 0)]\<rparr>,
           [item_b, item_a])"
  by code_simp

theorem consume_follows_item_order_witness:
  "PriorityBuffer_init 10 =
     Done \<lparr>max_size = 10, buffer = \<lparr>maxsize = 10, queue = []\<rparr>, empty_slots = 10,
           filled_slots = 0, total_produced = 0, total_consumed = 0,
           items_by_priority = [(CRITICAL, 0), (HIGH, 0), (MEDIUM, 0), (LOW, 0)]\<rparr> \<and>
   run \<lparr>max_size = 10, buffer = \<lparr>maxsize = 10, queue = []\<rparr>, empty_slots = 10,
        filled_slots = 0, total_produced = 0, total_consumed = 0,
        items_by_priority = [(CRITICAL, 0), (HIGH, 0), (MEDIUM, 0), (LOW, 0)]\<rparr>
       [Produce item_a, Produce item_b] =
     Done (\<lparr>max_size = 10, buffer = \<lparr>maxsize = 10, queue = [item_b, item_a]\<rparr>, empty_slots = 8,
            filled_slots = 2, total_produced = 2, total_consumed = 0,
            items_by_priority = [(CRITICAL, 0), (HIGH, 2), (MEDIUM, 0), (LOW, 0)]\<rparr>, []) \<and>
   item_b \<in> set [item_b, item_a] \<and>
   priority item_b = priority item_a \<and> item_id item_b < item_id item_a \<and>
   run \<lparr>max_size = 10, buffer = \<lparr>maxsize = 10, queue = [item_b, item_a]\<rparr>, empty_slots = 8,
        filled_slots = 2, total_produced = 2, total_consumed = 0,
        items_by_priority = [(CRITICAL, 0), (HIGH, 2), (MEDIUM, 0), (LOW, 0)]\<rparr>
       [Consume, Consume] =
     Done (\<lparr>max_size = 10, buffer = \<lparr>maxsize = 10, queue = []\<rparr>, empty_slots = 10,
            filled_slots = 0, total_produced = 2, total_consumed = 2,
            items_by_priority = [(CRITICAL, 0), (HIGH, 2), (MEDIUM, 0), (LOW, 0)]\<rparr>,
           [item_b, item_a]) \<and>
   item_a \<in> set [item_b, item_a] \<and>
   item_b \<in> set (takeWhile (\<lambda>x. x \<noteq> item_a) [item_b, item_a])"
proof -
  let ?start = "\<lparr>max_size = 10, buffer = \<lparr>maxsize = 10, queue = []\<rparr>, empty_slots = 10,
           filled_slots = 0, total_produced = 0, total_consumed = 0,
           items_by_priority = [(CRITICAL, 0), (HIGH, 0), (MEDIUM, 0), (LOW, 0)]\<rparr>"
  let ?mid = "\<lparr>max_size = 10, buffer = \<lparr>maxsize = 10, queue = [item_b, item_a]\<rparr>, empty_slots = 8,
            filled_slots = 2, total_produced = 2, total_consumed = 0,
            items_by_priority = [(CRITICAL, 0), (HIGH, 2), (MEDIUM, 0), (LOW, 0)]\<rparr>"
  let ?final = "\<lparr>max_size = 10, buffer = \<lparr>maxsize = 10, queue = []\<rparr>, empty_slots = 10,
            filled_slots = 0, total_produced = 2, total_consumed = 2,
            items_by_priority = [(CRITICAL, 0), (HIGH, 2), (MEDIUM, 0), (LOW, 0)]\<rparr>"
  have i: "PriorityBuffer_init 10 = Done ?start"
    by code_simp
  have r: "run ?start [Produce item_a, Produce item_b] = Done (?mid, [])"
    by code_simp
  have m: "item_b \<in> set (queue (buffer ?mid))"
    by simp
  have p: "priority item_b = priority item_a" and d: "item_id item_b < item_id item_a"
    by (simp_all add: item_a_def item_b_def)
  from p d have o: "priority item_b < priority item_a \<or>
         (priority item_b = priority item_a \<and>
           (item_id item_b < item_id item_a \<or>
            (item_id item_b = item_id item_a \<and>
              (data item_b < data item_a \<or>
               (data item_b = data item_a \<and> timestamp item_b < timestamp item_a)))))"
    by simp
  have r2: "run ?mid [Consume, Consume] = Done (?final, [item_b, item_a])"
    by code_simp
  have a: "item_a \<in> set [item_b, item_a]"
    by simp
  have "item_a \<in> set [item_b, item_a] \<longrightarrow>
        item_b \<in> set (takeWhile (\<lambda>x. x \<noteq> item_a) [item_b, item_a])"
    by (rule consume_follows_item_order [OF i r m o r2])
  then have t: "item_b \<in> set (takeWhile (\<lambda>x. x \<noteq> item_a) [item_b, item_a])"
    using a by (rule mp)
  have m': "item_b \<in> set [item_b, item_a]"
    by simp
  from i r m' p d r2 a t show ?thesis
    by (intro conjI)
qed

section \<open>Four priorities in and out\<close>

lemma item_lt_priority:
  "priority x < priority y \<Longrightarrow> item_lt x y"
  "priority y < priority x \<Longrightarrow> \<not> item_lt x y"
  by (auto simp: item_lt_lex)

lemma four_items_heap:
  assumes "priority a = Priority_value LOW" and "priority b = Priority_value CRITICAL"
    and "priority c = Priority_value MEDIUM" and "priority d = Priority_value HIGH"
  shows "heappush [] a = [a]"
    and "heappush [a] b = [b, a]"
    and "heappush [b, a] c = [b, a, c]"
    and "heappush [b, a, c] d = [b, d, c, a]"
    and "heappop [b, d, c, a] = Done (b, [d, a, c])"
    and "heappop [d, a, c] = Done (d, [c, a])"
    and "heappop [c, a] = Done (c, [a])"
    and "heappop [a] = Done (a, [])"
proof -
  have lt: "item_lt b a" "item_lt b c" "item_lt b d" "item_lt d a" "item_lt d c" "item_lt c a"
    "\<not> item_lt a b" "\<not> item_lt c b" "\<not> item_lt d b" "\<not> item_lt a d" "\<not> item_lt c d"
    "\<not> item_lt a c"
    using assms by (simp_all add: item_lt_priority)
  show "heappush [] a = [a]"
    by (simp add: heappush_def siftdown_def siftdown_loop.simps)
  show "heappush [a] b = [b, a]"
    using lt by (simp add: heappush_def siftdown_def siftdown_loop.simps)
  show "heappush [b, a] c = [b, a, c]"
    using lt by (simp add: heappush_def siftdown_def siftdown_loop.simps numeral_2_eq_2)
  show "heappush [b, a, c] d = [b, d, c, a]"
    using lt by (simp add: heappush_def siftdown_def siftdown_loop.simps numeral_3_eq_3)
  show "heappop [b, d, c, a] = Done (b, [d, a, c])"
    using lt
    by (simp add: heappop_def siftup_def siftup_loop.simps siftdown_def siftdown_loop.simps
        numeral_2_eq_2 numeral_3_eq_3)
  show "heappop [d, a, c] = Done (d, [c, a])"
    using lt
    by (simp add: heappop_def siftup_def siftup_loop.simps siftdown_def siftdown_loop.simps
        numeral_2_eq_2 numeral_3_eq_3)
  show "heappop [c, a] = Done (c, [a])"
    using lt
    by (simp add: heappop_def siftup_def siftup_loop.simps siftdown_def siftdown_loop.simps
        numeral_2_eq_2 numeral_3_eq_3)
  show "heappop [a] = Done (a, [])"
    by (simp add: heappop_def)
qed

lemma produce_step:
  assumes "buffer_inv s" and "qsize (buffer s) < max_size s"
  shows "\<exists>s'. produce s item = Done s' \<and> buffer_inv s' \<and>
              queue (buffer s') = heappush (queue (buffer s)) item \<and> max_size s' = max_size s"
proof -
  from produce_enabled [OF assms(1), of item] assms(2) obtain s' where
    p: "produce s item = Done s'" by blast
  then have "queue (buffer s') = heappush (queue (buffer s)) item"
    unfolding produce_unfold by (auto split: if_splits result.splits)
  with p produce_buffer_inv [OF assms(1) p] produce_max_size [OF p] show ?thesis by simp
qed

lemma consume_step:
  assumes "buffer_inv s" and "heappop (queue (buffer s)) = Done (x, h)"
  shows "\<exists>s'. consume s = Done (x, s') \<and> buffer_inv s' \<and>
              queue (buffer s') = h \<and> max_size s' = max_size s"
proof -
  from assms(2) have ne: "queue (buffer s) \<noteq> []"
    by (auto simp: heappop_def)
  with assms(1) have "filled_slots s \<noteq> 0" "qsize (buffer s) \<noteq> 0"
    by (auto simp: buffer_inv_def qsize_def)
  with assms(2) obtain s' where c: "consume s = Done (x, s')" and q: "queue (buffer s') = h"
    unfolding consume_unfold by simp
  with consume_buffer_inv [OF assms(1) c] consume_max_size [OF c] show ?thesis by simp
qed

text \<open>
  Claim C2. On an empty buffer of capacity at least four (fresh, or emptied again by
  earlier completed calls), producing four items with the priorities low, critical,
  medium, high in that order and then consuming four times completes, and the items come
  back in the order critical, high, medium, low, whatever their ids, payloads and
  timestamps are.
\<close>

theorem four_priorities_order:
  assumes "PriorityBuffer_init ms = Done s_init"
    and "run s_init ops = Done (s, outs)"
    and "stat_size (get_stats s) = 0"
    and "4 \<le> ms"
    and "priority a = Priority_value LOW"
    and "priority b = Priority_value CRITICAL"
    and "priority c = Priority_value MEDIUM"
    and "priority d = Priority_value HIGH"
  shows "\<exists>t. run s [Produce a, Produce b, Produce c, Produce d,
                     Consume, Consume, Consume, Consume] = Done (t, [b, d, c, a])"
proof -
  note h = four_items_heap [OF assms(5-8)]
  have inv: "buffer_inv s"
    by (rule run_buffer_inv [OF init_buffer_inv [OF assms(1)] assms(2)])
  have ms: "max_size s = ms"
    using run_max_size [OF assms(2)] init_max_size [OF assms(1)] by simp
  from assms(3) have q0: "queue (buffer s) = []"
    by (simp add: get_stats_def qsize_def)
  from produce_step [OF inv, of a] q0 ms assms(4) obtain s1 where
    s1: "produce s a = Done s1" "buffer_inv s1" "queue (buffer s1) = [a]" "max_size s1 = ms"
    by (auto simp: qsize_def h)
  from produce_step [OF s1(2), of b] s1(3,4) assms(4) obtain s2 where
    s2: "produce s1 b = Done s2" "buffer_inv s2" "queue (buffer s2) = [b, a]" "max_size s2 = ms"
    by (auto simp: qsize_def h)
  from produce_step [OF s2(2), of c] s2(3,4) assms(4) obtain s3 where
    s3: "produce s2 c = Done s3" "buffer_inv s3" "queue (buffer s3) = [b, a, c]" "max_size s3 = ms"
    by (auto simp: qsize_def h)
  from produce_step [OF s3(2), of d] s3(3,4) assms(4) obtain s4 where
    s4: "produce s3 d = Done s4" "buffer_inv s4" "queue (buffer s4) = [b, d, c, a]"
    by (auto simp: qsize_def h)
  from consume_step [OF s4(2), of b "[d, a, c]"] s4(3) obtain s5 where
    s5: "consume s4 = Done (b, s5)" "buffer_inv s5" "queue (buffer s5) = [d, a, c]"
    by (auto simp: h)
  from consume_step [OF s5(2), of d "[c, a]"] s5(3) obtain s6 where
    s6: "consume s5 = Done (d, s6)" "buffer_inv s6" "queue (buffer s6) = [c, a]"
    by (auto simp: h)
  from consume_step [OF s6(2), of c "[a]"] s6(3) obtain s7 where
    s7: "consume s6 = Done (c, s7)" "buffer_inv s7" "queue (buffer s7) = [a]"
    by (auto simp: h)
  from consume_step [OF s7(2), of a "[]"] s7(3) obtain s8 where
    s8: "consume s7 = Done (a, s8)"
    by (auto simp: h)
  from s1(1) s2(1) s3(1) s4(1) s5(1) s6(1) s7(1) s8 show ?thesis
    by simp
qed

theorem four_priorities_order_witness:
  "PriorityBuffer_init 4 =
     Done \<lparr>max_size = 4, buffer = \<lparr>maxsize = 4, queue = []\<rparr>, empty_slots = 4,
           filled_slots = 0, total_produced = 0, total_consumed = 0,
           items_by_priority = [(CRITICAL, 0), (HIGH, 0), (MEDIUM, 0), (LOW, 0)]\<rparr> \<and>
   run \<lparr>max_size = 4, buffer = \<lparr>maxsize = 4, queue = []\<rparr>, empty_slots = 4,
        filled_slots = 0, total_produced = 0, total_consumed = 0,
        items_by_priority = [(CRITICAL, 0), (HIGH, 0), (MEDIUM, 0), (LOW, 0)]\<rparr>
       [Produce item_a, Consume] =
     Done (\<lparr>max_size = 4, buffer = \<lparr>maxsize = 4, queue = []\<rparr>, empty_slots = 4,
            filled_slots = 0, total_produced = 1, total_consumed = 1,
            items_by_priority = [(CRITICAL, 0), (HIGH, 1), (MEDIUM, 0), (LOW, 0)]\<rparr>,
           [item_a]) \<and>
   stat_size (get_stats
     \<lparr>max_size = 4, buffer = \<lparr>maxsize = 4, queue = []\<rparr>, empty_slots = 4,
      filled_slots = 0, total_produced = 1, total_consumed = 1,
      items_by_priority = [(CRITICAL, 0), (HIGH, 1), (MEDIUM, 0), (LOW, 0)]\<rparr>) = 0 \<and>
   (4::int) \<le> 4 \<and>
   priority item_low = Priority_value LOW \<and>
   priority item_critical = Priority_value CRITICAL \<and>
   priority item_medium = Priority_value MEDIUM \<and>
   priority item_high = Priority_value HIGH \<and>
   (\<exists>t. run \<lparr>max_size = 4, buffer = \<lparr>maxsize = 4, queue = []\<rparr>, empty_slots = 4,
             filled_slots = 0, total_produced = 1, total_consumed = 1,
             items_by_priority = [(CRITICAL, 0), (HIGH, 1), (MEDIUM, 0), (LOW, 0)]\<rparr>
            [Produce item_low, Produce item_critical, Produce item_medium, Produce item_high,
             Consume, Consume, Consume, Consume] =
          Done (t, [item_critical, item_high, item_medium, item_low]))"
proof -
  let ?start = "\<lparr>max_size = 4, buffer = \<lparr>maxsize = 4, queue = []\<rparr>, empty_slots = 4,
           filled_slots = 0, total_produced = 0, total_consumed = 0,
           items_by_priority = [(CRITICAL, 0), (HIGH, 0), (MEDIUM, 0), (LOW, 0)]\<rparr>"
  let ?mid = "\<lparr>max_size = 4, buffer = \<lparr>maxsize = 4, queue = []\<rparr>, empty_slots = 4,
            filled_slots = 0, total_produced = 1, total_consumed = 1,
            items_by_priority = [(CRITICAL, 0), (HIGH, 1), (MEDIUM, 0), (LOW, 0)]\<rparr>"
  have i: "PriorityBuffer_init 4 = Done ?start"
    by code_simp
  have r: "run ?start [Produce item_a, Consume] = Done (?mid, [item_a])"
    by code_simp
  have z: "stat_size (get_stats ?mid) = 0"
    by (simp add: get_stats_def qsize_def)
  have c: "(4::int) \<le> 4"
    by simp
  have p: "priority item_low = Priority_value LOW"
    "priority item_critical = Priority_value CRITICAL"
    "priority item_medium = Priority_value MEDIUM"
    "priority item_high = Priority_value HIGH"
    by (simp_all add: item_low_def item_critical_def item_medium_def item_high_def)
  from i r z c p four_priorities_order [OF i r z c p] show ?thesis
    by (intro conjI)
qed

end
